theory Spec2Isabelle
  imports Main
begin

section \<open>Python string primitives used by the VPG codec\<close>

text \<open>
  Python strings are modelled as \<open>string\<close>; a \<open>char\<close> stands for a code point below 256.
  The character classes below are the ones of CPython restricted to that range.
\<close>

definition whitespace_chars :: "char list" where
  "whitespace_chars =
     [CHR 0x09, CHR 0x0A, CHR 0x0B, CHR 0x0C, CHR 0x0D, CHR 0x1C, CHR 0x1D, CHR 0x1E,
      CHR 0x1F, CHR 0x20, CHR 0x85, CHR 0xA0]"

definition is_space :: "char \<Rightarrow> bool" where
  "is_space c = (c \<in> set whitespace_chars)"

definition linebreak_chars :: "char list" where
  "linebreak_chars =
     [CHR 0x0A, CHR 0x0B, CHR 0x0C, CHR 0x0D, CHR 0x1C, CHR 0x1D, CHR 0x1E, CHR 0x85]"

definition is_linebreak :: "char \<Rightarrow> bool" where
  "is_linebreak c = (c \<in> set linebreak_chars)"

text \<open>\<open>s.strip()\<close> and \<open>s.strip(',')\<close>.\<close>

definition strip_with :: "(char \<Rightarrow> bool) \<Rightarrow> string \<Rightarrow> string" where
  "strip_with p s = rev (dropWhile p (rev (dropWhile p s)))"

definition strip :: "string \<Rightarrow> string" where
  "strip s = strip_with is_space s"

definition strip_comma :: "string \<Rightarrow> string" where
  "strip_comma s = strip_with (\<lambda>c. c = CHR '','') s"

text \<open>\<open>s.split()\<close>: maximal runs of non-whitespace characters.\<close>

fun split_aux :: "string \<Rightarrow> string \<Rightarrow> string list" where
  "split_aux [] cur = (if cur = [] then [] else [cur])"
| "split_aux (c # cs) cur =
     (if is_space c then (if cur = [] then split_aux cs [] else cur # split_aux cs [])
      else split_aux cs (cur @ [c]))"

definition split :: "string \<Rightarrow> string list" where
  "split s = split_aux s []"

text \<open>
  \<open>s.splitlines()\<close>: a line ends at a line-break character, \<open>\r\n\<close> counts as one break,
  and no empty line is produced after the last break.
\<close>

fun splitlines_aux :: "string \<Rightarrow> string \<Rightarrow> string list" where
  "splitlines_aux [] cur = (if cur = [] then [] else [cur])"
| "splitlines_aux (c # cs) cur =
     (if c = CHR 0x0D then
        (case cs of
           [] \<Rightarrow> [cur]
         | d # ds \<Rightarrow> if d = CHR 0x0A then cur # splitlines_aux ds [] else cur # splitlines_aux cs [])
      else if is_linebreak c then cur # splitlines_aux cs []
      else splitlines_aux cs (cur @ [c]))"

definition splitlines :: "string \<Rightarrow> string list" where
  "splitlines s = splitlines_aux s []"

text \<open>\<open>sep.join(xs)\<close>.\<close>

fun join :: "string \<Rightarrow> string list \<Rightarrow> string" where
  "join sep [] = []"
| "join sep [x] = x"
| "join sep (x # y # ys) = x @ sep @ join sep (y # ys)"

text \<open>\<open>s.lower()\<close> on code points below 256.\<close>

definition upper_chars :: "char list" where
  "upper_chars = ''ABCDEFGHIJKLMNOPQRSTUVWXYZ'' @
     [CHR 0xC0, CHR 0xC1, CHR 0xC2, CHR 0xC3, CHR 0xC4, CHR 0xC5, CHR 0xC6, CHR 0xC7,
      CHR 0xC8, CHR 0xC9, CHR 0xCA, CHR 0xCB, CHR 0xCC, CHR 0xCD, CHR 0xCE, CHR 0xCF,
      CHR 0xD0, CHR 0xD1, CHR 0xD2, CHR 0xD3, CHR 0xD4, CHR 0xD5, CHR 0xD6,
      CHR 0xD8, CHR 0xD9, CHR 0xDA, CHR 0xDB, CHR 0xDC, CHR 0xDD, CHR 0xDE]"

definition lower_chars :: "char list" where
  "lower_chars = ''abcdefghijklmnopqrstuvwxyz'' @
     [CHR 0xE0, CHR 0xE1, CHR 0xE2, CHR 0xE3, CHR 0xE4, CHR 0xE5, CHR 0xE6, CHR 0xE7,
      CHR 0xE8, CHR 0xE9, CHR 0xEA, CHR 0xEB, CHR 0xEC, CHR 0xED, CHR 0xEE, CHR 0xEF,
      CHR 0xF0, CHR 0xF1, CHR 0xF2, CHR 0xF3, CHR 0xF4, CHR 0xF5, CHR 0xF6,
      CHR 0xF8, CHR 0xF9, CHR 0xFA, CHR 0xFB, CHR 0xFC, CHR 0xFD, CHR 0xFE]"

definition lower_char :: "char \<Rightarrow> char" where
  "lower_char c = (case map_of (zip upper_chars lower_chars) c of Some d \<Rightarrow> d | None \<Rightarrow> c)"

definition lower :: "string \<Rightarrow> string" where
  "lower s = map lower_char s"

text \<open>\<open>s.startswith(p)\<close> for a one-character prefix.\<close>

definition startswith :: "string \<Rightarrow> char \<Rightarrow> bool" where
  "startswith s c = (case s of [] \<Rightarrow> False | d # _ \<Rightarrow> d = c)"

subsection \<open>Decimal integers: \<open>int(token)\<close> and \<open>str(n)\<close>\<close>

definition digit_chars :: "char list" where
  "digit_chars = ''0123456789''"

definition is_dec_digit :: "char \<Rightarrow> bool" where
  "is_dec_digit c = (c \<in> set digit_chars)"

definition digit_val :: "char \<Rightarrow> nat" where
  "digit_val c = (case map_of (zip digit_chars [0, 1, 2, 3, 4, 5, 6, 7, 8, 9]) c of Some d \<Rightarrow> d | None \<Rightarrow> 0)"

definition digit_char :: "nat \<Rightarrow> char" where
  "digit_char d = digit_chars ! (d mod 10)"

text \<open>
  The digits of a decimal literal after its first digit: digits, each optionally preceded
  by one underscore.
\<close>

fun dec_value :: "nat \<Rightarrow> string \<Rightarrow> nat option" where
  "dec_value acc [] = Some acc"
| "dec_value acc (c # cs) =
     (if is_dec_digit c then dec_value (10 * acc + digit_val c) cs
      else if c = CHR ''_'' then
        (case cs of
           [] \<Rightarrow> None
         | d # ds \<Rightarrow> if is_dec_digit d then dec_value (10 * acc + digit_val d) ds else None)
      else None)"

definition py_nat :: "string \<Rightarrow> nat option" where
  "py_nat t = (case t of [] \<Rightarrow> None
               | c # cs \<Rightarrow> if is_dec_digit c then dec_value (digit_val c) cs else None)"

text \<open>
  \<open>int(s)\<close>: surrounding whitespace is ignored, one sign is allowed; \<open>None\<close> is the
  \<open>ValueError\<close> the call raises.
\<close>

definition py_int :: "string \<Rightarrow> int option" where
  "py_int s =
     (case strip s of
        [] \<Rightarrow> None
      | c # cs \<Rightarrow>
          if c = CHR ''-'' then map_option (\<lambda>n. - int n) (py_nat cs)
          else if c = CHR ''+'' then map_option int (py_nat cs)
          else map_option int (py_nat (c # cs)))"

text \<open>\<open>str(n)\<close> for a non-negative integer.\<close>

function str_nat :: "nat \<Rightarrow> string" where
  "str_nat n = (if n < 10 then [digit_char n] else str_nat (n div 10) @ [digit_char (n mod 10)])"
  by pat_completeness auto
termination
  by (relation "measure id") auto

declare str_nat.simps [simp del]

section \<open>The parser: \<open>parse_vpg_text\<close>\<close>

text \<open>
  The state of the parsing loop: the four containers the function fills. Coordinates have
  the type \<open>'f\<close> of the host's floats; \<open>float(token)\<close> is the parameter \<open>pf\<close>, with
  \<open>None\<close> for the \<open>ValueError\<close> it raises.
\<close>

record 'f parse_state =
  vertices :: "('f \<times> 'f \<times> 'f) list"
  indices :: "(int \<times> int \<times> int) list"
  node_index_to_id :: "string list"
  node_id_to_index :: "string \<rightharpoonup> nat"

definition init_state :: "'f parse_state" where
  "init_state = \<lparr>vertices = [], indices = [], node_index_to_id = [], node_id_to_index = Map.empty\<rparr>"

definition normalize_token :: "string \<Rightarrow> string" where
  "normalize_token token = strip (strip_comma (strip token))"

text \<open>The vertex branch of the loop body, for a line already split into \<open>parts\<close>.\<close>

definition vertex_line :: "(string \<Rightarrow> 'f option) \<Rightarrow> 'f parse_state \<Rightarrow> string \<Rightarrow> string list \<Rightarrow> 'f parse_state" where
  "vertex_line pf st key parts =
     (if length parts < 4 then st
      else case (pf (parts ! 1), pf (parts ! 2), pf (parts ! 3)) of
        (Some x, Some y, Some z) \<Rightarrow>
          if node_id_to_index st key \<noteq> None then st
          else st\<lparr>vertices := vertices st @ [(x, y, z)],
                  node_index_to_id := node_index_to_id st @ [key],
                  node_id_to_index := (node_id_to_index st)(key \<mapsto> length (vertices st))\<rparr>
      | _ \<Rightarrow> st)"

text \<open>
  The element branch: the three index tokens are converted first (any \<open>ValueError\<close> skips
  the line), then all three are checked against the vertices parsed so far.
\<close>

definition face_line :: "'f parse_state \<Rightarrow> string list \<Rightarrow> 'f parse_state" where
  "face_line st parts =
     (let idx_tokens = tl parts in
      if length idx_tokens < 3 then st
      else case (py_int (normalize_token (idx_tokens ! 0)),
                 py_int (normalize_token (idx_tokens ! 1)),
                 py_int (normalize_token (idx_tokens ! 2))) of
        (Some a, Some b, Some c) \<Rightarrow>
          (let tri = (a - 1, b - 1, c - 1);
               n = int (length (vertices st)) in
           if (0 \<le> a - 1 \<and> a - 1 < n) \<and> (0 \<le> b - 1 \<and> b - 1 < n) \<and> (0 \<le> c - 1 \<and> c - 1 < n)
           then st\<lparr>indices := indices st @ [tri]\<rparr>
           else st)
      | _ \<Rightarrow> st)"

definition parse_line :: "(string \<Rightarrow> 'f option) \<Rightarrow> 'f parse_state \<Rightarrow> string \<Rightarrow> 'f parse_state" where
  "parse_line pf st raw =
     (let line = strip raw in
      if line = [] \<or> startswith line (CHR ''#'') then st
      else case split line of
        [] \<Rightarrow> st
      | p # ps \<Rightarrow>
          (let key = lower p in
           if startswith key (CHR ''n'') then vertex_line pf st key (p # ps)
           else if startswith key (CHR ''e'') then face_line st (p # ps)
           else st))"

definition parse_lines :: "(string \<Rightarrow> 'f option) \<Rightarrow> string list \<Rightarrow> 'f parse_state" where
  "parse_lines pf ls = foldl (parse_line pf) init_state ls"

definition parse_vpg_text :: "(string \<Rightarrow> 'f option) \<Rightarrow> string \<Rightarrow> 'f parse_state" where
  "parse_vpg_text pf filetext = parse_lines pf (splitlines filetext)"

text \<open>
  Classification of a raw line as the loop sees it, and the pieces of a line the branches
  read. These name what \<open>parse_line\<close> tests; they are used to state properties only.
\<close>

definition line_key :: "string \<Rightarrow> string option" where
  "line_key raw =
     (let line = strip raw in
      if line = [] \<or> startswith line (CHR ''#'') then None
      else case split line of [] \<Rightarrow> None | p # ps \<Rightarrow> Some (lower p))"

definition is_vertex_line :: "string \<Rightarrow> bool" where
  "is_vertex_line raw = (case line_key raw of None \<Rightarrow> False | Some key \<Rightarrow> startswith key (CHR ''n''))"

definition is_face_line :: "string \<Rightarrow> bool" where
  "is_face_line raw =
     (case line_key raw of None \<Rightarrow> False
      | Some key \<Rightarrow> \<not> startswith key (CHR ''n'') \<and> startswith key (CHR ''e''))"

definition valid_vertex_line :: "(string \<Rightarrow> 'f option) \<Rightarrow> string \<Rightarrow> bool" where
  "valid_vertex_line pf raw =
     (is_vertex_line raw \<and>
      (let parts = split (strip raw) in
       4 \<le> length parts \<and> pf (parts ! 1) \<noteq> None \<and> pf (parts ! 2) \<noteq> None \<and> pf (parts ! 3) \<noteq> None))"

definition malformed_vertex_line :: "(string \<Rightarrow> 'f option) \<Rightarrow> string \<Rightarrow> bool" where
  "malformed_vertex_line pf raw = (is_vertex_line raw \<and> \<not> valid_vertex_line pf raw)"

definition face_tokens :: "string \<Rightarrow> string list" where
  "face_tokens raw = take 3 (tl (split (strip raw)))"

definition resolved_index :: "string \<Rightarrow> int option" where
  "resolved_index tok = map_option (\<lambda>i. i - 1) (py_int (normalize_token tok))"

section \<open>Merging generated geometry lines into an existing text\<close>

definition is_geometry_line :: "string \<Rightarrow> bool" where
  "is_geometry_line line =
     (let stripped = strip line in
      if stripped = [] \<or> startswith stripped (CHR ''#'') then False
      else lower_char (hd stripped) \<in> {CHR ''n'', CHR ''e''})"

definition geometry_indices_of :: "string list \<Rightarrow> nat list" where
  "geometry_indices_of base_lines =
     map fst (filter (\<lambda>(idx, line). is_geometry_line line) (enumerate 0 base_lines))"

definition merge_geometry_with_existing :: "string \<Rightarrow> string list \<Rightarrow> string" where
  "merge_geometry_with_existing base_text geometry_lines =
     (let base_lines = splitlines base_text in
      if geometry_lines = [] then base_text
      else
        let geometry_indices = geometry_indices_of base_lines in
        if geometry_indices = [] then
          (let result_lines = base_lines;
               result_lines = (if result_lines \<noteq> [] \<and> strip (last result_lines) \<noteq> []
                               then result_lines @ [[]] else result_lines);
               result_lines = result_lines @ geometry_lines
           in join [CHR 0x0A] result_lines)
        else
          (let first_idx = hd geometry_indices;
               last_idx = last geometry_indices;
               prefix = take first_idx base_lines;
               suffix = drop (last_idx + 1) base_lines;
               result_lines = prefix;
               result_lines = (if result_lines \<noteq> [] \<and> strip (last result_lines) \<noteq> [] \<and> geometry_lines \<noteq> []
                               then result_lines @ [[]] else result_lines);
               result_lines = result_lines @ geometry_lines;
               result_lines =
                 (if suffix \<noteq> [] then
                    (if geometry_lines \<noteq> [] \<and> strip (hd suffix) \<noteq> [] \<and> strip (last geometry_lines) \<noteq> []
                     then result_lines @ [[]] else result_lines) @ suffix
                  else result_lines)
           in join [CHR 0x0A] result_lines))"

section \<open>Serialising a mesh: \<open>mesh_to_vpg_text\<close>\<close>

text \<open>
  The host's BMesh as far as the serialiser reads and writes it. A vertex carries its
  coordinates and the values of the two string layers; a layer value is the decoded
  byte string, \<open>None\<close> when the bytes do not decode. A face is the list of the indices
  of its vertices. The flags say whether the layers exist.
\<close>

record 'f bmvert =
  co :: "'f \<times> 'f \<times> 'f"
  node_id_tag :: "string option"
  init_node_id_tag :: "string option"

record 'f bmesh =
  verts :: "'f bmvert list"
  faces :: "nat list list"
  has_node_id_layer :: bool
  has_init_node_id_layer :: bool

text \<open>\<open>s.isdigit()\<close> on code points below 256: the ASCII digits and the superscripts 1, 2, 3.\<close>

definition isdigit_chars :: "char list" where
  "isdigit_chars = ''0123456789'' @ [CHR 0xB2, CHR 0xB3, CHR 0xB9]"

definition isdigit :: "string \<Rightarrow> bool" where
  "isdigit s = (s \<noteq> [] \<and> (\<forall>c \<in> set s. c \<in> set isdigit_chars))"

definition expected_id :: "nat \<Rightarrow> string" where
  "expected_id idx = CHR ''n'' # str_nat (idx + 1)"

text \<open>The variables of the first loop over the vertices.\<close>

record 'f id_scan =
  vertex_entries :: "('f bmvert \<times> string) list"
  numeric_pattern :: bool
  needs_renumber :: bool
  seen_numeric :: "string set"

definition init_scan :: "'f id_scan" where
  "init_scan = \<lparr>vertex_entries = [], numeric_pattern = True, needs_renumber = False, seen_numeric = {}\<rparr>"

text \<open>Reading the stamped id of a vertex: \<open>None\<close> when there is no usable value.\<close>

definition read_node_id :: "bool \<Rightarrow> 'f bmvert \<Rightarrow> string option" where
  "read_node_id has_layer v =
     (if has_layer then
        (case node_id_tag v of
           None \<Rightarrow> None
         | Some decoded \<Rightarrow> if decoded \<noteq> [] then Some (strip decoded) else None)
      else None)"

definition scan_vertex :: "bool \<Rightarrow> 'f id_scan \<Rightarrow> nat \<times> 'f bmvert \<Rightarrow> 'f id_scan" where
  "scan_vertex has_layer sc iv =
     (let idx = fst iv; v = snd iv;
          node_id0 = read_node_id has_layer v;
          absent = (case node_id0 of None \<Rightarrow> True | Some s \<Rightarrow> s = []);
          s = (case node_id0 of None \<Rightarrow> [] | Some s \<Rightarrow> s);
          bad = (length s < 2 \<or> lower_char (hd s) \<noteq> CHR ''n'' \<or> \<not> isdigit (tl s));
          normalized_id = CHR ''n'' # tl s;
          node_id = (if absent then expected_id idx else if bad then s else normalized_id);
          np = (if absent then numeric_pattern sc else if bad then False else numeric_pattern sc);
          nr = (if absent then True
                else if bad then needs_renumber sc
                else if s \<noteq> normalized_id then True else needs_renumber sc);
          nr = (if node_id \<in> seen_numeric sc then True else nr);
          nr = (if node_id \<noteq> expected_id idx then True else nr)
      in \<lparr>vertex_entries = vertex_entries sc @ [(v, node_id)],
          numeric_pattern = np,
          needs_renumber = nr,
          seen_numeric = insert node_id (seen_numeric sc)\<rparr>)"

definition scan_vertices :: "bool \<Rightarrow> 'f bmvert list \<Rightarrow> 'f id_scan" where
  "scan_vertices has_layer vs = foldl (scan_vertex has_layer) init_scan (enumerate 0 vs)"

text \<open>The renumbering loop: every entry gets \<open>n<idx+1>\<close>, written to the layers that exist.\<close>

definition renumber_entry :: "bool \<Rightarrow> bool \<Rightarrow> nat \<times> ('f bmvert \<times> string) \<Rightarrow> 'f bmvert \<times> string" where
  "renumber_entry has_layer has_init e =
     (let idx = fst e; vert = fst (snd e); new_id = expected_id idx;
          vert = (if has_layer then vert\<lparr>node_id_tag := Some new_id\<rparr> else vert);
          vert = (if has_init then vert\<lparr>init_node_id_tag := Some new_id\<rparr> else vert)
      in (vert, new_id))"

definition assign_ids :: "'f bmesh \<Rightarrow> ('f bmvert \<times> string) list" where
  "assign_ids bm =
     (let sc = scan_vertices (has_node_id_layer bm) (verts bm) in
      if numeric_pattern sc \<and> needs_renumber sc
      then map (renumber_entry (has_node_id_layer bm) (has_init_node_id_layer bm))
               (enumerate 0 (vertex_entries sc))
      else vertex_entries sc)"

definition vertex_text_line :: "('f \<Rightarrow> string) \<Rightarrow> 'f bmvert \<times> string \<Rightarrow> string" where
  "vertex_text_line fstr e =
     (case co (fst e) of (x, y, z) \<Rightarrow> snd e @ '' '' @ fstr x @ '' '' @ fstr y @ '' '' @ fstr z)"

definition tri_line :: "nat \<Rightarrow> nat \<Rightarrow> nat \<Rightarrow> nat \<Rightarrow> string" where
  "tri_line k a b c =
     CHR ''e'' # str_nat k @ '' '' @ str_nat (a + 1) @ '' '' @ str_nat (b + 1) @ '' '' @ str_nat (c + 1)"

text \<open>The triangle fan of a polygon: \<open>a\<close> is its first vertex, the list holds the others.\<close>

fun fan_lines :: "nat \<Rightarrow> nat \<Rightarrow> nat list \<Rightarrow> string list" where
  "fan_lines k a (b # c # rest) = tri_line k a b c # fan_lines (k + 1) a (c # rest)"
| "fan_lines k a rest = []"

fun face_text_lines :: "nat \<Rightarrow> nat list list \<Rightarrow> string list" where
  "face_text_lines tri_counter [] = []"
| "face_text_lines tri_counter (f # fs) =
     (if length f = 3 then
        tri_line tri_counter (f ! 0) (f ! 1) (f ! 2) # face_text_lines (tri_counter + 1) fs
      else if length f > 3 then
        fan_lines tri_counter (hd f) (tl f) @ face_text_lines (tri_counter + (length f - 2)) fs
      else face_text_lines tri_counter fs)"

definition geometry_text_lines :: "('f \<Rightarrow> string) \<Rightarrow> 'f bmesh \<Rightarrow> string list" where
  "geometry_text_lines fstr bm =
     map (vertex_text_line fstr) (assign_ids bm) @ face_text_lines 1 (faces bm)"

text \<open>
  The function returns the text; the second component is the BMesh after the call, which
  differs from the argument only when the edit-mode BMesh was used (the copy made
  otherwise is freed).
\<close>

definition mesh_to_vpg_text :: "('f \<Rightarrow> string) \<Rightarrow> 'f bmesh \<Rightarrow> bool \<Rightarrow> string option \<Rightarrow> string \<times> 'f bmesh" where
  "mesh_to_vpg_text fstr bm edit_mode base_text =
     (let lines = geometry_text_lines fstr bm;
          bm' = (if edit_mode then bm\<lparr>verts := map fst (assign_ids bm)\<rparr> else bm);
          result = (case base_text of
                      None \<Rightarrow> join [CHR 0x0A] lines
                    | Some base \<Rightarrow> if base = [] then join [CHR 0x0A] lines
                                   else merge_geometry_with_existing base lines)
      in (result, bm'))"

section \<open>Building a mesh from a parsed document: \<open>generate_mesh\<close>\<close>

text \<open>The exceptions of the modelled code that reach a caller.\<close>

datatype py_error = ValueError | IndexError | TypeError | UnicodeDecodeError | KeyError

text \<open>
  A string layer of a BMesh holds at most 255 bytes and cuts a longer value there.
  \<open>layer_value s\<close> is what decodes from a layer after the UTF-8 bytes of \<open>s\<close> were stored
  in it: \<open>None\<close> when the cut falls inside a character, so that the bytes do not decode.
\<close>

fun layer_prefix :: "nat \<Rightarrow> string \<Rightarrow> string option" where
  "layer_prefix n [] = Some []"
| "layer_prefix n (c # cs) =
     (if n = 0 then Some []
      else if of_char c < (128 :: nat) then map_option ((#) c) (layer_prefix (n - 1) cs)
      else if n = 1 then None
      else map_option ((#) c) (layer_prefix (n - 2) cs))"

definition layer_value :: "string \<Rightarrow> string option" where
  "layer_value s = layer_prefix 255 s"

text \<open>
  A \<open>Vector\<close> and the coordinates of a \<open>BMVert\<close> hold single-precision floats: \<open>single\<close> is
  the rounding of a float to single precision, read back as a float.
\<close>

definition vector :: "('f \<Rightarrow> 'f) \<Rightarrow> 'f \<times> 'f \<times> 'f \<Rightarrow> 'f \<times> 'f \<times> 'f" where
  "vector single p = (case p of (x, y, z) \<Rightarrow> (single x, single y, single z))"

text \<open>
  The vertex loop. \<open>to_local\<close> is the product \<open>obj.matrix_world.inverted() @ v\<close> of the
  object on a vector \<open>v\<close>; \<open>node_index_to_id[i]\<close> raises \<open>IndexError\<close> past the end of the
  list. The position computed for an id is kept for every later vertex of that id.
\<close>

definition gen_vertex ::
  "('f \<Rightarrow> 'f) \<Rightarrow> ('f \<times> 'f \<times> 'f \<Rightarrow> 'f \<times> 'f \<times> 'f) \<Rightarrow> string list \<Rightarrow>
   (string \<rightharpoonup> 'f \<times> 'f \<times> 'f) \<times> 'f bmvert list \<Rightarrow> nat \<times> ('f \<times> 'f \<times> 'f) \<Rightarrow>
   py_error + (string \<rightharpoonup> 'f \<times> 'f \<times> 'f) \<times> 'f bmvert list" where
  "gen_vertex single to_local ids acc ip =
     (let i = fst ip; transformed_positions = fst acc; vs = snd acc in
      if i < length ids then
        (let node_id = ids ! i;
             pos = (case transformed_positions node_id of
                      None \<Rightarrow> vector single (to_local (vector single (snd ip)))
                    | Some q \<Rightarrow> q)
         in Inr (transformed_positions(node_id \<mapsto> pos),
                 vs @ [\<lparr>co = pos, node_id_tag = layer_value node_id,
                         init_node_id_tag = layer_value node_id\<rparr>]))
      else Inl IndexError)"

fun gen_vertices ::
  "('f \<Rightarrow> 'f) \<Rightarrow> ('f \<times> 'f \<times> 'f \<Rightarrow> 'f \<times> 'f \<times> 'f) \<Rightarrow> string list \<Rightarrow>
   (string \<rightharpoonup> 'f \<times> 'f \<times> 'f) \<times> 'f bmvert list \<Rightarrow> (nat \<times> ('f \<times> 'f \<times> 'f)) list \<Rightarrow>
   py_error + (string \<rightharpoonup> 'f \<times> 'f \<times> 'f) \<times> 'f bmvert list" where
  "gen_vertices single to_local ids acc [] = Inr acc"
| "gen_vertices single to_local ids acc (ip # ips) =
     (case gen_vertex single to_local ids acc ip of
        Inl e \<Rightarrow> Inl e
      | Inr acc' \<Rightarrow> gen_vertices single to_local ids acc' ips)"

text \<open>\<open>bm.verts[j]\<close>: a negative index counts from the end, out of range raises.\<close>

definition vert_index :: "nat \<Rightarrow> int \<Rightarrow> nat option" where
  "vert_index n j =
     (let k = (if j < 0 then int n + j else j) in
      if 0 \<le> k \<and> k < int n then Some (nat k) else None)"

text \<open>
  \<open>bm.faces.new(verts)\<close> raises \<open>ValueError\<close> when a vertex is used twice or when a face on
  the same vertices exists already.
\<close>

definition gen_face :: "nat \<Rightarrow> nat list list \<Rightarrow> int \<times> int \<times> int \<Rightarrow> py_error + nat list list" where
  "gen_face n fs tri =
     (case tri of (a, b, c) \<Rightarrow>
        (case (vert_index n a, vert_index n b, vert_index n c) of
           (Some a', Some b', Some c') \<Rightarrow>
             if \<not> distinct [a', b', c'] \<or> (\<exists>f \<in> set fs. set f = {a', b', c'})
             then Inl ValueError
             else Inr (fs @ [[a', b', c']])
         | _ \<Rightarrow> Inl IndexError))"

fun gen_faces :: "nat \<Rightarrow> nat list list \<Rightarrow> (int \<times> int \<times> int) list \<Rightarrow> py_error + nat list list" where
  "gen_faces n fs [] = Inr fs"
| "gen_faces n fs (tri # tris) =
     (case gen_face n fs tri of Inl e \<Rightarrow> Inl e | Inr fs' \<Rightarrow> gen_faces n fs' tris)"

text \<open>
  The BMesh after \<open>generate_mesh\<close> on a fresh BMesh. The custom properties the function
  also stores on the mesh (file path, counts) are no part of the BMesh.
\<close>

definition generate_mesh ::
  "('f \<Rightarrow> 'f) \<Rightarrow> ('f \<times> 'f \<times> 'f \<Rightarrow> 'f \<times> 'f \<times> 'f) \<Rightarrow> ('f \<times> 'f \<times> 'f) list \<Rightarrow> (int \<times> int \<times> int) list \<Rightarrow>
   string list \<Rightarrow> py_error + 'f bmesh" where
  "generate_mesh single to_local vs tris ids =
     (case gen_vertices single to_local ids (Map.empty, []) (enumerate 0 vs) of
        Inl e \<Rightarrow> Inl e
      | Inr acc \<Rightarrow>
          (case gen_faces (length (snd acc)) [] tris of
             Inl e \<Rightarrow> Inl e
           | Inr fs \<Rightarrow>
               Inr \<lparr>verts = snd acc, faces = fs,
                    has_node_id_layer = True, has_init_node_id_layer = True\<rparr>))"

text \<open>
  Serialising a parsed document: the mesh is built from it as the importer does, written
  to the mesh datablock and read back by the serialiser (neither changes what the
  serialiser reads), with no base text and outside edit mode.
\<close>

definition document_to_text ::
  "('f \<Rightarrow> string) \<Rightarrow> ('f \<Rightarrow> 'f) \<Rightarrow> ('f \<times> 'f \<times> 'f \<Rightarrow> 'f \<times> 'f \<times> 'f) \<Rightarrow> 'f parse_state \<Rightarrow>
     py_error + string" where
  "document_to_text fstr single to_local st =
     (case generate_mesh single to_local (vertices st) (indices st) (node_index_to_id st) of
        Inl e \<Rightarrow> Inl e
      | Inr bm \<Rightarrow> Inr (fst (mesh_to_vpg_text fstr bm False None)))"

text \<open>
  A float reader and printer for concrete evaluation: the tokens \<open>d\<dots>d\<close> and \<open>d\<dots>d.0\<close>
  of non-negative whole numbers, on which they agree with \<open>float\<close> and \<open>str\<close> of Python
  for values below \<open>10^16\<close>.
\<close>

definition plain_digits :: "string \<Rightarrow> nat option" where
  "plain_digits s = (if s \<noteq> [] \<and> list_all is_dec_digit s then dec_value 0 s else None)"

definition plain_float :: "string \<Rightarrow> nat option" where
  "plain_float s =
     (if 2 \<le> length s \<and> drop (length s - 2) s = ''.0''
      then plain_digits (take (length s - 2) s)
      else plain_digits s)"

definition plain_str :: "nat \<Rightarrow> string" where
  "plain_str n = str_nat n @ ''.0''"

section \<open>The host's data and the internal text editor\<close>

text \<open>A custom property value: a string, or a value of another type.\<close>

datatype idprop = PStr string | POther

record 'f mesh_block =
  geometry :: "'f bmesh"
  vpg_file_path :: "string option"
  mesh_data_prop :: "idprop option"

record bobject =
  obj_name :: string
  obj_is_mesh :: bool
  obj_in_edit_mode :: bool
  obj_data :: "string option"

text \<open>
  The two custom properties of the scene: the previous texts by short name and the map
  from short names to full paths, a dictionary in insertion order. \<open>None\<close>: the key is
  not set.
\<close>

record scene_props =
  prev_texts :: "(string \<rightharpoonup> string option) option"
  short_to_full :: "(string \<times> string) list option"

text \<open>
  \<open>bpy.data\<close> and the module state: the objects in iteration order, the mesh datablocks by
  name (an object refers to its mesh by name, so objects can share one), the text
  datablocks by name with their content, the scene of \<open>bpy.context\<close>, the first text-editor
  area of the screen (\<open>None\<close>: there is none; otherwise the name of the text it shows),
  and the undo history of \<open>text_editor\<close>.
\<close>

record 'f blend_data =
  objects :: "bobject list"
  meshes :: "string \<rightharpoonup> 'f mesh_block"
  texts :: "string \<rightharpoonup> string"
  scene :: "scene_props option"
  editor_area :: "string option option"
  history_stack :: "(string \<times> string) list"
  history_stack_idx :: int

text \<open>Dictionaries in insertion order.\<close>

fun dict_set :: "'k \<Rightarrow> 'v \<Rightarrow> ('k \<times> 'v) list \<Rightarrow> ('k \<times> 'v) list" where
  "dict_set k v [] = [(k, v)]"
| "dict_set k v (e # es) = (if fst e = k then (k, v) # es else e # dict_set k v es)"

definition dict_del :: "'k \<Rightarrow> ('k \<times> 'v) list \<Rightarrow> ('k \<times> 'v) list" where
  "dict_del k es = filter (\<lambda>e. fst e \<noteq> k) es"

text \<open>
  \<open>to_short_filename\<close> returns \<open>os.path.basename(filename)\<close>. The function
  \<open>os.path.basename\<close> of the platform is the parameter \<open>basename\<close> of everything that
  names a text; \<open>posix_basename\<close> is the one with \<open>/\<close> as the only separator.
\<close>

definition to_short_filename :: "(string \<Rightarrow> string) \<Rightarrow> string \<Rightarrow> string" where
  "to_short_filename basename filename = basename filename"

definition posix_basename :: "string \<Rightarrow> string" where
  "posix_basename filename = rev (takeWhile (\<lambda>c. c \<noteq> CHR ''/'') (rev filename))"

definition read_int_file :: "(string \<Rightarrow> string) \<Rightarrow> 'f blend_data \<Rightarrow> string \<Rightarrow> string option" where
  "read_int_file basename w filename = texts w (to_short_filename basename filename)"

text \<open>
  The name of a custom property has at most 63 bytes in UTF-8; a code point below 256
  takes one byte below 128 and two from there on.
\<close>

definition utf8_length :: "string \<Rightarrow> nat" where
  "utf8_length s = sum_list (map (\<lambda>c. if of_char c < (128 :: nat) then 1 else 2) s)"

definition idprop_name_limit :: nat where
  "idprop_name_limit = 63"

text \<open>
  \<open>write_int_file\<close>. The first component of the result is the exception the call raises,
  if any; the second is the state when it returns or raises. The membership test on a
  missing scene raises \<open>TypeError\<close>. Storing the path under a short name longer than the
  limit of property names raises \<open>KeyError\<close>, after the map has been created and before
  any text is. A text requested under the empty name is created under a name of the
  host's choice, \<open>unnamed\<close> of the existing texts, and the lookup of the empty name that
  follows raises \<open>KeyError\<close>.
\<close>

definition write_int_file ::
  "(string \<Rightarrow> string) \<Rightarrow> ((string \<rightharpoonup> string) \<Rightarrow> string) \<Rightarrow> 'f blend_data \<Rightarrow> string \<Rightarrow> string \<Rightarrow>
     py_error option \<times> 'f blend_data" where
  "write_int_file basename unnamed w filename text =
     (case scene w of
        None \<Rightarrow> (Some TypeError, w)
      | Some sc \<Rightarrow>
          (let short_filename = to_short_filename basename filename;
               fmap = (case short_to_full sc of None \<Rightarrow> [] | Some m \<Rightarrow> m);
               sc = sc\<lparr>short_to_full := Some fmap\<rparr>
           in if idprop_name_limit < utf8_length short_filename
              then (Some KeyError, w\<lparr>scene := Some sc\<rparr>)
              else
                (let sc = sc\<lparr>short_to_full := Some (dict_set short_filename filename fmap)\<rparr>
                 in if texts w short_filename = None \<and> short_filename = []
                    then (Some KeyError, w\<lparr>texts := (texts w)(unnamed (texts w) \<mapsto> []),
                                           scene := Some sc\<rparr>)
                    else
                      (let pt = (case prev_texts sc of None \<Rightarrow> Map.empty | Some p \<Rightarrow> p);
                           pt = (if pt short_filename = None then pt(short_filename \<mapsto> None) else pt)
                       in (None, w\<lparr>texts := (texts w)(short_filename \<mapsto> text),
                                    scene := Some (sc\<lparr>prev_texts := Some pt\<rparr>)\<rparr>)))))"

definition remove_int_file :: "(string \<Rightarrow> string) \<Rightarrow> 'f blend_data \<Rightarrow> string \<Rightarrow> 'f blend_data" where
  "remove_int_file basename w filename =
     (let short_filename = to_short_filename basename filename;
          w = w\<lparr>texts := (texts w)(short_filename := None)\<rparr>
      in case scene w of
           None \<Rightarrow> w
         | Some sc \<Rightarrow>
             w\<lparr>scene := Some (sc\<lparr>prev_texts := map_option (\<lambda>p. p(short_filename := None)) (prev_texts sc),
                                  short_to_full := map_option (dict_del short_filename) (short_to_full sc)\<rparr>)\<rparr>)"

definition show_int_file :: "(string \<Rightarrow> string) \<Rightarrow> 'f blend_data \<Rightarrow> string \<Rightarrow> 'f blend_data" where
  "show_int_file basename w filename =
     (let short_filename = to_short_filename basename filename in
      case texts w short_filename of
        None \<Rightarrow> w
      | Some t \<Rightarrow>
          (case editor_area w of
             None \<Rightarrow> w
           | Some shown \<Rightarrow> if shown \<noteq> Some short_filename
                           then w\<lparr>editor_area := Some (Some short_filename)\<rparr> else w))"

section \<open>The watcher: orphan cleanup and geometry-to-text sync\<close>

definition active_path_step :: "'f blend_data \<Rightarrow> string set \<Rightarrow> bobject \<Rightarrow> string set" where
  "active_path_step w active obj =
     (if \<not> obj_is_mesh obj then active
      else case obj_data obj of
        None \<Rightarrow> active
      | Some mname \<Rightarrow>
          (case meshes w mname of
             None \<Rightarrow> active
           | Some mesh \<Rightarrow>
               (case vpg_file_path mesh of
                  None \<Rightarrow> active
                | Some vpg_path \<Rightarrow> if vpg_path \<noteq> [] then insert vpg_path active else active)))"

definition collect_active_vpg_paths :: "'f blend_data \<Rightarrow> string set" where
  "collect_active_vpg_paths w = foldl (active_path_step w) {} (objects w)"

text \<open>
  \<open>_cleanup_orphan_internal_texts(scene)\<close>, called on the scene of \<open>bpy.context\<close> as the
  timer does. The items of the map are listed before the loop; the set of active paths
  is computed once.
\<close>

definition cleanup_step ::
  "(string \<Rightarrow> string) \<Rightarrow> string set \<Rightarrow> 'f blend_data \<Rightarrow> string \<times> string \<Rightarrow> 'f blend_data" where
  "cleanup_step basename active_paths w item =
     (if snd item \<notin> active_paths then remove_int_file basename w (snd item) else w)"

definition cleanup_orphan_internal_texts :: "(string \<Rightarrow> string) \<Rightarrow> 'f blend_data \<Rightarrow> 'f blend_data" where
  "cleanup_orphan_internal_texts basename w =
     (case scene w of
        None \<Rightarrow> w
      | Some sc \<Rightarrow>
          (case short_to_full sc of
             None \<Rightarrow> w
           | Some mapping \<Rightarrow>
               if mapping = [] then w
               else foldl (cleanup_step basename (collect_active_vpg_paths w)) w mapping))"

text \<open>
  The writes of \<open>_sync_object_text\<close> after the comparison. An exception inside the
  \<open>try\<close> block is caught there; what was written before it stays.
\<close>

definition store_synced_text ::
  "(string \<Rightarrow> string) \<Rightarrow> ((string \<rightharpoonup> string) \<Rightarrow> string) \<Rightarrow> 'f blend_data \<Rightarrow> string \<Rightarrow> string \<Rightarrow> string \<Rightarrow>
     'f blend_data" where
  "store_synced_text basename unnamed w mname vpg_path new_text =
     (let w = w\<lparr>meshes := (case meshes w mname of
                             None \<Rightarrow> meshes w
                           | Some mesh \<Rightarrow> (meshes w)(mname \<mapsto> mesh\<lparr>mesh_data_prop := Some (PStr new_text)\<rparr>))\<rparr>
      in case write_int_file basename unnamed w vpg_path new_text of
           (Some e, w) \<Rightarrow> w
         | (None, w) \<Rightarrow>
             (let short_name = to_short_filename basename vpg_path;
                  w = (case scene w of
                         None \<Rightarrow> w
                       | Some sc \<Rightarrow>
                           (let pt = (case prev_texts sc of None \<Rightarrow> Map.empty | Some p \<Rightarrow> p)
                            in w\<lparr>scene := Some (sc\<lparr>prev_texts := Some (pt(short_name \<mapsto> Some new_text))\<rparr>)\<rparr>))
              in show_int_file basename w vpg_path))"

definition sync_object_text ::
  "(string \<Rightarrow> string) \<Rightarrow> ((string \<rightharpoonup> string) \<Rightarrow> string) \<Rightarrow> ('f \<Rightarrow> string) \<Rightarrow> 'f blend_data \<Rightarrow> bobject \<Rightarrow>
     bool \<times> 'f blend_data" where
  "sync_object_text basename unnamed fstr w obj =
     (case obj_data obj of
        None \<Rightarrow> (False, w)
      | Some mname \<Rightarrow>
          (case meshes w mname of
             None \<Rightarrow> (False, w)
           | Some mesh \<Rightarrow>
               (case vpg_file_path mesh of
                  None \<Rightarrow> (False, w)
                | Some vpg_path \<Rightarrow>
                    if vpg_path = [] then (False, w)
                    else
                      (let stored_text = mesh_data_prop mesh;
                           base_text = (case stored_text of
                                          Some (PStr s) \<Rightarrow> Some s
                                        | _ \<Rightarrow> read_int_file basename w vpg_path);
                           r = mesh_to_vpg_text fstr (geometry mesh) (obj_in_edit_mode obj) base_text;
                           new_text = fst r;
                           w = w\<lparr>meshes := (meshes w)(mname \<mapsto> mesh\<lparr>geometry := snd r\<rparr>)\<rparr>;
                           old_text = (case stored_text of
                                         Some (PStr s) \<Rightarrow> Some s
                                       | _ \<Rightarrow> base_text)
                       in if Some new_text = old_text then (False, w)
                          else (True, store_synced_text basename unnamed w mname vpg_path new_text)))))"

text \<open>
  What the watcher does to the state, one call after the other: a sync of an object
  (from \<open>export_modified_objects\<close> or the timer) or a cleanup pass of the timer.
\<close>

datatype watcher_op = SyncObject bobject | CleanupPass

definition watcher_step ::
  "(string \<Rightarrow> string) \<Rightarrow> ((string \<rightharpoonup> string) \<Rightarrow> string) \<Rightarrow> ('f \<Rightarrow> string) \<Rightarrow> 'f blend_data \<Rightarrow> watcher_op \<Rightarrow>
     'f blend_data" where
  "watcher_step basename unnamed fstr w op =
     (case op of
        SyncObject obj \<Rightarrow> snd (sync_object_text basename unnamed fstr w obj)
      | CleanupPass \<Rightarrow> cleanup_orphan_internal_texts basename w)"

definition watcher_run ::
  "(string \<Rightarrow> string) \<Rightarrow> ((string \<rightharpoonup> string) \<Rightarrow> string) \<Rightarrow> ('f \<Rightarrow> string) \<Rightarrow> 'f blend_data \<Rightarrow> watcher_op list \<Rightarrow>
     'f blend_data" where
  "watcher_run basename unnamed fstr w ops = foldl (watcher_step basename unnamed fstr) w ops"

section \<open>File access: \<open>read_file\<close>\<close>

text \<open>
  What \<open>open(filepath, mode='r', encoding='utf8')\<close> followed by \<open>f.read()\<close> does for a path:
  it returns the decoded content, raises an \<open>OSError\<close> (\<open>IOError\<close> is the same class), or
  raises \<open>UnicodeDecodeError\<close> when the bytes of the file are not UTF-8. The file system
  is a function from paths to these outcomes.
\<close>

datatype read_outcome = ReadOk string | RaisesOSError | RaisesUnicodeDecodeError

text \<open>The handler catches \<open>IOError\<close> only; \<open>Inl\<close> is an exception that reaches the caller.\<close>

definition read_file :: "(string \<Rightarrow> read_outcome) \<Rightarrow> string \<Rightarrow> py_error + string option" where
  "read_file fs filepath =
     (case fs filepath of
        ReadOk content \<Rightarrow> Inr (Some content)
      | RaisesOSError \<Rightarrow> Inr None
      | RaisesUnicodeDecodeError \<Rightarrow> Inl UnicodeDecodeError)"

section \<open>Predicates used to state the properties\<close>

text \<open>
  A face token is bad for a vertex count when it does not convert to an integer or when
  its zero-based index lies outside \<open>[0, n)\<close>.
\<close>

definition bad_index :: "nat \<Rightarrow> string \<Rightarrow> bool" where
  "bad_index n tok =
     (case resolved_index tok of None \<Rightarrow> True | Some i \<Rightarrow> \<not> (0 \<le> i \<and> i < int n))"

definition tri_in_range :: "nat \<Rightarrow> int \<times> int \<times> int \<Rightarrow> bool" where
  "tri_in_range n tri =
     (case tri of (a, b, c) \<Rightarrow> (0 \<le> a \<and> a < int n) \<and> (0 \<le> b \<and> b < int n) \<and> (0 \<le> c \<and> c < int n))"

text \<open>The two dictionaries of the parser agree with the vertex list.\<close>

definition scan_inv :: "'f parse_state \<Rightarrow> bool" where
  "scan_inv st = (dom (node_id_to_index st) = set (node_index_to_id st) \<and>
                  length (vertices st) = length (node_index_to_id st))"

definition valid_keys :: "(string \<Rightarrow> 'f option) \<Rightarrow> string list \<Rightarrow> string list" where
  "valid_keys pf ls = map (\<lambda>l. case line_key l of None \<Rightarrow> [] | Some k \<Rightarrow> k) (filter (valid_vertex_line pf) ls)"

text \<open>The blank separator lines around the replaced block.\<close>

definition sep_before :: "string list \<Rightarrow> string list" where
  "sep_before pre = (if pre \<noteq> [] \<and> strip (last pre) \<noteq> [] then [[]] else [])"

definition sep_after :: "string list \<Rightarrow> string list \<Rightarrow> string list" where
  "sep_after geometry_lines suf =
     (if suf \<noteq> [] \<and> strip (hd suf) \<noteq> [] \<and> strip (last geometry_lines) \<noteq> [] then [[]] else [])"

text \<open>
  The id policy per vertex: the pattern test of the serialiser, whether a vertex carries
  a usable id that fails it, and the id a vertex gets when the document is not renumbered.
\<close>

definition id_pattern_fails :: "string \<Rightarrow> bool" where
  "id_pattern_fails s = (length s < 2 \<or> lower_char (hd s) \<noteq> CHR ''n'' \<or> \<not> isdigit (tl s))"

definition fails_entirely :: "bool \<Rightarrow> 'f bmvert \<Rightarrow> bool" where
  "fails_entirely has_layer v =
     (case read_node_id has_layer v of None \<Rightarrow> False | Some s \<Rightarrow> s \<noteq> [] \<and> id_pattern_fails s)"

definition own_id :: "bool \<Rightarrow> nat \<Rightarrow> 'f bmvert \<Rightarrow> string" where
  "own_id has_layer idx v =
     (case read_node_id has_layer v of
        None \<Rightarrow> expected_id idx
      | Some s \<Rightarrow> if s = [] then expected_id idx
                  else if id_pattern_fails s then s else CHR ''n'' # tl s)"

text \<open>Meshes for concrete evaluation: vertices at the origin with the given stamped ids.\<close>

definition tagged_vert :: "string option \<Rightarrow> nat bmvert" where
  "tagged_vert t = \<lparr>co = (0, 0, 0), node_id_tag = t, init_node_id_tag = t\<rparr>"

definition tagged_mesh :: "string option list \<Rightarrow> nat bmesh" where
  "tagged_mesh tags = \<lparr>verts = map tagged_vert tags, faces = [],
                        has_node_id_layer = True, has_init_node_id_layer = True\<rparr>"

text \<open>
  What the sync compares: the text the mesh caches or, when it caches none, the content
  of the internal text; and the text serialised from the mesh and merged into it.
\<close>

definition cached_or_buffer ::
  "(string \<Rightarrow> string) \<Rightarrow> 'f blend_data \<Rightarrow> 'f mesh_block \<Rightarrow> string \<Rightarrow> string option" where
  "cached_or_buffer basename w mesh vpg_path =
     (case mesh_data_prop mesh of Some (PStr s) \<Rightarrow> Some s | _ \<Rightarrow> read_int_file basename w vpg_path)"

definition merged_text ::
  "(string \<Rightarrow> string) \<Rightarrow> ('f \<Rightarrow> string) \<Rightarrow> 'f blend_data \<Rightarrow> bobject \<Rightarrow> 'f mesh_block \<Rightarrow> string \<Rightarrow> string" where
  "merged_text basename fstr w obj mesh vpg_path =
     fst (mesh_to_vpg_text fstr (geometry mesh) (obj_in_edit_mode obj)
            (cached_or_buffer basename w mesh vpg_path))"

text \<open>The tracked documents of a state and the previous text recorded for a short name.\<close>

definition tracked_paths :: "'f blend_data \<Rightarrow> (string \<times> string) list" where
  "tracked_paths w =
     (case scene w of None \<Rightarrow> [] | Some sc \<Rightarrow> (case short_to_full sc of None \<Rightarrow> [] | Some m \<Rightarrow> m))"

definition prev_text_of :: "'f blend_data \<Rightarrow> string \<Rightarrow> string option option" where
  "prev_text_of w short =
     (case scene w of None \<Rightarrow> None
      | Some sc \<Rightarrow> (case prev_texts sc of None \<Rightarrow> None | Some p \<Rightarrow> p short))"

text \<open>A document is gone when its text, its map entry and its previous text are.\<close>

definition document_gone :: "'f blend_data \<Rightarrow> string \<Rightarrow> bool" where
  "document_gone w short =
     (texts w short = None \<and> short \<notin> fst ` set (tracked_paths w) \<and> prev_text_of w short = None)"

text \<open>
  The short name under which a sync of the object writes: that of the VPG path of its
  mesh, if the mesh has one. The calls of a list avoid a short name when no sync among
  them writes under it or under the empty name.
\<close>

definition sync_short_name :: "(string \<Rightarrow> string) \<Rightarrow> 'f blend_data \<Rightarrow> bobject \<Rightarrow> string option" where
  "sync_short_name basename w obj =
     (case obj_data obj of
        None \<Rightarrow> None
      | Some mname \<Rightarrow>
          (case meshes w mname of
             None \<Rightarrow> None
           | Some mesh \<Rightarrow>
               (case vpg_file_path mesh of
                  None \<Rightarrow> None
                | Some vpg_path \<Rightarrow>
                    if vpg_path = [] then None else Some (to_short_filename basename vpg_path))))"

definition op_avoids :: "(string \<Rightarrow> string) \<Rightarrow> 'f blend_data \<Rightarrow> string \<Rightarrow> watcher_op \<Rightarrow> bool" where
  "op_avoids basename w short op =
     (case op of
        SyncObject obj \<Rightarrow> sync_short_name basename w obj \<noteq> Some short \<and>
                          sync_short_name basename w obj \<noteq> Some []
      | CleanupPass \<Rightarrow> True)"

text \<open>Every key of the map is the short name of its path, as \<open>write_int_file\<close> stores them.\<close>

definition paths_wf :: "(string \<Rightarrow> string) \<Rightarrow> (string \<times> string) list \<Rightarrow> bool" where
  "paths_wf basename m = list_all (\<lambda>item. to_short_filename basename (snd item) = fst item) m"

text \<open>
  States for concrete evaluation. In the first, one mesh object is linked to \<open>a.vpg\<close> and
  caches the text its geometry serialises to. In the second, the text \<open>x.vpg\<close> of the path
  \<open>/data/x.vpg\<close> is tracked, has an undo entry, and no object refers to the path.
\<close>

definition linked_object :: bobject where
  "linked_object = \<lparr>obj_name = ''a'', obj_is_mesh = True, obj_in_edit_mode = False, obj_data = Some ''a''\<rparr>"

definition linked_mesh :: "nat mesh_block" where
  "linked_mesh = \<lparr>geometry = tagged_mesh [Some ''n1''], vpg_file_path = Some ''a.vpg'',
                   mesh_data_prop = Some (PStr ''# header\<newline>\<newline>n1 0.0 0.0 0.0'')\<rparr>"

definition synced_world :: "nat blend_data" where
  "synced_world =
     \<lparr>objects = [linked_object],
      meshes = [''a'' \<mapsto> linked_mesh],
      texts = [''a.vpg'' \<mapsto> ''# header\<newline>\<newline>n1 0.0 0.0 0.0''],
      scene = Some \<lparr>prev_texts = Some [''a.vpg'' \<mapsto> None], short_to_full = Some [(''a.vpg'', ''a.vpg'')]\<rparr>,
      editor_area = None,
      history_stack = [],
      history_stack_idx = - 1\<rparr>"

definition orphan_world :: "nat blend_data" where
  "orphan_world =
     \<lparr>objects = [linked_object],
      meshes = [''a'' \<mapsto> linked_mesh],
      texts = [''a.vpg'' \<mapsto> ''n1 0.0 0.0 0.0'', ''x.vpg'' \<mapsto> ''n1 1 1 1''],
      scene = Some \<lparr>prev_texts = Some [''a.vpg'' \<mapsto> None, ''x.vpg'' \<mapsto> Some ''n1 1 1 1''],
                    short_to_full = Some [(''a.vpg'', ''a.vpg''), (''x.vpg'', ''/data/x.vpg'')]\<rparr>,
      editor_area = None,
      history_stack = [(''x.vpg'', ''n1 1 1 1'')],
      history_stack_idx = 0\<rparr>"

text \<open>
  A state in which the tracked text \<open>x.vpg\<close> of the path \<open>/data/x.vpg\<close> is an orphan while
  the mesh of an object is linked to \<open>/other/x.vpg\<close>, a path with the same short name.
\<close>

definition twin_mesh :: "nat mesh_block" where
  "twin_mesh = \<lparr>geometry = tagged_mesh [Some ''n1''], vpg_file_path = Some ''/other/x.vpg'',
                 mesh_data_prop = None\<rparr>"

definition collision_world :: "nat blend_data" where
  "collision_world =
     \<lparr>objects = [linked_object],
      meshes = [''a'' \<mapsto> twin_mesh],
      texts = [''x.vpg'' \<mapsto> ''n1 1 1 1''],
      scene = Some \<lparr>prev_texts = Some [''x.vpg'' \<mapsto> Some ''n1 1 1 1''],
                    short_to_full = Some [(''x.vpg'', ''/data/x.vpg'')]\<rparr>,
      editor_area = None,
      history_stack = [],
      history_stack_idx = - 1\<rparr>"

text \<open>A choice of name for a text requested under the empty name, for the examples.\<close>

definition plain_unnamed :: "(string \<rightharpoonup> string) \<Rightarrow> string" where
  "plain_unnamed ts = (if ts ''Text'' = None then ''Text'' else ''Text.001'')"

text \<open>
  What every id of a parsed document satisfies, and the invariant of the parsing loop:
  the dictionaries agree with the vertex list and the ids are distinct.
\<close>

definition id_ok :: "string \<Rightarrow> bool" where
  "id_ok s = (s \<noteq> [] \<and> (\<forall>c \<in> set s. \<not> is_space c) \<and> startswith s (CHR ''n'') \<and> lower s = s)"

definition ids_inv :: "'f parse_state \<Rightarrow> bool" where
  "ids_inv st = (scan_inv st \<and> distinct (node_index_to_id st) \<and> list_all id_ok (node_index_to_id st))"

text \<open>
  The float tokens the serialiser prints for a document are read back as the same
  floats: the printed token is not empty, has no whitespace, and converts to the float.
\<close>

definition float_roundtrips :: "(string \<Rightarrow> 'f option) \<Rightarrow> ('f \<Rightarrow> string) \<Rightarrow> 'f \<Rightarrow> bool" where
  "float_roundtrips pf fstr v = (pf (fstr v) = Some v \<and> fstr v \<noteq> [] \<and> list_all (\<lambda>c. \<not> is_space c) (fstr v))"

definition position_roundtrips :: "(string \<Rightarrow> 'f option) \<Rightarrow> ('f \<Rightarrow> string) \<Rightarrow> 'f \<times> 'f \<times> 'f \<Rightarrow> bool" where
  "position_roundtrips pf fstr p =
     (case p of (x, y, z) \<Rightarrow> float_roundtrips pf fstr x \<and> float_roundtrips pf fstr y \<and> float_roundtrips pf fstr z)"

text \<open>The ids of a document are already \<open>n1\<close>, \<open>n2\<close>, \<dots> in order.\<close>

definition dense_ids :: "string list \<Rightarrow> bool" where
  "dense_ids ids = (ids = map expected_id [0 ..< length ids])"

text \<open>The ids the serialiser writes for a parsed document.\<close>

definition serialized_ids :: "string list \<Rightarrow> string list" where
  "serialized_ids ids =
     (if list_ex id_pattern_fails ids \<or> dense_ids ids then ids
      else map expected_id [0 ..< length ids])"

text \<open>The vertex and the face the importer creates for a parsed vertex and a parsed face.\<close>

definition stamped_vert :: "('f \<times> 'f \<times> 'f) \<times> string \<Rightarrow> 'f bmvert" where
  "stamped_vert pi = \<lparr>co = fst pi, node_id_tag = Some (snd pi), init_node_id_tag = Some (snd pi)\<rparr>"

definition face_of :: "int \<times> int \<times> int \<Rightarrow> nat list" where
  "face_of tri = (case tri of (a, b, c) \<Rightarrow> [nat a, nat b, nat c])"

text \<open>
  The faces \<open>bm.faces.new\<close> accepts one after the other: each on three different vertices,
  no two on the same vertices.
\<close>

definition buildable :: "(int \<times> int \<times> int) list \<Rightarrow> bool" where
  "buildable tris =
     (list_all (\<lambda>tri. distinct (face_of tri)) tris \<and> distinct (map (\<lambda>tri. set (face_of tri)) tris))"

text \<open>
  The vertex a line contributes when it is a valid vertex line: its lower-cased id and
  its three coordinates; \<open>None\<close> for every other line. The valid entries of a text are
  those of its lines, in order. Of a list of entries, \<open>keep_first\<close> keeps each one whose id
  is not among the ids seen before it.
\<close>

definition vertex_entry :: "(string \<Rightarrow> 'f option) \<Rightarrow> string \<Rightarrow> (string \<times> 'f \<times> 'f \<times> 'f) option" where
  "vertex_entry pf raw =
     (case line_key raw of
        None \<Rightarrow> None
      | Some key \<Rightarrow>
          if \<not> startswith key (CHR ''n'') then None
          else
            (let parts = split (strip raw) in
             if length parts < 4 then None
             else case (pf (parts ! 1), pf (parts ! 2), pf (parts ! 3)) of
               (Some x, Some y, Some z) \<Rightarrow> Some (key, (x, y, z))
             | _ \<Rightarrow> None))"

definition valid_entries :: "(string \<Rightarrow> 'f option) \<Rightarrow> string list \<Rightarrow> (string \<times> 'f \<times> 'f \<times> 'f) list" where
  "valid_entries pf ls = List.map_filter (vertex_entry pf) ls"

fun keep_first :: "string set \<Rightarrow> (string \<times> 'a) list \<Rightarrow> (string \<times> 'a) list" where
  "keep_first seen [] = []"
| "keep_first seen (e # es) =
     (if fst e \<in> seen then keep_first seen es else e # keep_first (insert (fst e) seen) es)"

section \<open>Properties of the parser\<close>

lemma face_line_frame:
  "vertices (face_line st ps) = vertices st"
  "node_index_to_id (face_line st ps) = node_index_to_id st"
  "node_id_to_index (face_line st ps) = node_id_to_index st"
  by (simp_all add: face_line_def Let_def split: option.splits prod.splits)

lemma vertex_line_indices: "indices (vertex_line pf st key ps) = indices st"
  by (simp add: vertex_line_def split: option.splits prod.splits)

lemma vertex_line_length: "length (vertices st) \<le> length (vertices (vertex_line pf st key ps))"
  by (simp add: vertex_line_def split: option.splits prod.splits)

lemma parse_line_length: "length (vertices st) \<le> length (vertices (parse_line pf st raw))"
  by (simp add: parse_line_def Let_def face_line_frame vertex_line_length split: list.splits)

lemma foldl_parse_line_length:
  "length (vertices st) \<le> length (vertices (foldl (parse_line pf) st ls))"
proof (induction ls arbitrary: st)
  case Nil
  show ?case by simp
next
  case (Cons l ls)
  have "length (vertices st) \<le> length (vertices (parse_line pf st l))"
    by (rule parse_line_length)
  also have "\<dots> \<le> length (vertices (foldl (parse_line pf) (parse_line pf st l) ls))"
    by (rule Cons.IH)
  finally show ?case by simp
qed

lemma parse_line_face:
  assumes "is_face_line raw"
  shows "parse_line pf st raw = face_line st (split (strip raw))"
  using assms
  by (auto simp: is_face_line_def line_key_def parse_line_def Let_def split: if_splits list.splits option.splits)

lemma take3_nth:
  assumes "\<not> length xs < 3"
  shows "take 3 xs = [xs ! 0, xs ! 1, xs ! 2]"
proof -
  from assms obtain a b c r where "xs = a # b # c # r"
    by (cases xs; simp; cases "tl xs"; simp; cases "tl (tl xs)"; simp)
  then show ?thesis by simp
qed

lemma face_line_dropped:
  assumes "\<exists>t \<in> set (take 3 (tl ps)). bad_index (length (vertices st)) t"
  shows "face_line st ps = st"
proof (cases "length (tl ps) < 3")
  case True
  then show ?thesis by (simp add: face_line_def)
next
  case False
  from assms show ?thesis
    unfolding take3_nth [OF False] using False
    by (auto simp: face_line_def Let_def bad_index_def resolved_index_def split: option.splits)
qed

lemma bad_index_mono: "bad_index n t \<Longrightarrow> m \<le> n \<Longrightarrow> bad_index m t"
  by (auto simp: bad_index_def split: option.splits)

lemma parse_lines_drop_face:
  assumes face: "is_face_line l"
    and bad: "\<exists>t \<in> set (face_tokens l). bad_index (length (vertices (parse_lines pf pre))) t"
  shows "parse_lines pf (pre @ l # post) = parse_lines pf (pre @ post)"
proof -
  have "parse_line pf (parse_lines pf pre) l = parse_lines pf pre"
    using bad by (simp add: parse_line_face [OF face] face_line_dropped face_tokens_def)
  then show ?thesis by (simp add: parse_lines_def)
qed

lemma parse_lines_prefix_length:
  "length (vertices (parse_lines pf pre)) \<le> length (vertices (parse_lines pf (pre @ post)))"
  by (simp add: parse_lines_def foldl_parse_line_length)

lemma face_line_in_range:
  assumes "\<forall>tri \<in> set (indices st). tri_in_range (length (vertices st)) tri"
  shows "\<forall>tri \<in> set (indices (face_line st ps)). tri_in_range (length (vertices (face_line st ps))) tri"
  using assms
  by (auto simp: face_line_def Let_def tri_in_range_def split: option.splits)

lemma tri_in_range_mono: "tri_in_range m tri \<Longrightarrow> m \<le> n \<Longrightarrow> tri_in_range n tri"
  by (auto simp: tri_in_range_def)

lemma vertex_line_in_range:
  assumes "\<forall>tri \<in> set (indices st). tri_in_range (length (vertices st)) tri"
  shows "\<forall>tri \<in> set (indices (vertex_line pf st key ps)).
           tri_in_range (length (vertices (vertex_line pf st key ps))) tri"
  using assms vertex_line_length [of st pf key ps]
  by (auto simp: vertex_line_indices intro: tri_in_range_mono)

lemma parse_line_in_range:
  assumes "\<forall>tri \<in> set (indices st). tri_in_range (length (vertices st)) tri"
  shows "\<forall>tri \<in> set (indices (parse_line pf st raw)).
           tri_in_range (length (vertices (parse_line pf st raw))) tri"
  using assms face_line_in_range [OF assms] vertex_line_in_range [OF assms]
  by (simp add: parse_line_def Let_def split: list.splits)

lemma foldl_parse_line_in_range:
  assumes "\<forall>tri \<in> set (indices st). tri_in_range (length (vertices st)) tri"
  shows "\<forall>tri \<in> set (indices (foldl (parse_line pf) st ls)).
           tri_in_range (length (vertices (foldl (parse_line pf) st ls))) tri"
  using assms
proof (induction ls arbitrary: st)
  case Nil
  then show ?case by simp
next
  case (Cons l ls)
  show ?case
    using Cons.IH [OF parse_line_in_range [OF Cons.prems]] by simp
qed

lemma parse_vpg_text_in_range:
  "\<forall>tri \<in> set (indices (parse_vpg_text pf filetext)).
     tri_in_range (length (vertices (parse_vpg_text pf filetext))) tri"
  unfolding parse_vpg_text_def parse_lines_def
  by (rule foldl_parse_line_in_range) (simp add: init_state_def)


lemma vertex_line_example:
  assumes "pf ''0'' = Some z"
  shows "parse_line pf st ''n1 0 0 0'' =
     (if node_id_to_index st ''n1'' \<noteq> None then st
      else st\<lparr>vertices := vertices st @ [(z, z, z)],
              node_index_to_id := node_index_to_id st @ [''n1''],
              node_id_to_index := (node_id_to_index st)(''n1'' \<mapsto> length (vertices st))\<rparr>)"
proof -
  have s: "strip ''n1 0 0 0'' = ''n1 0 0 0''" by code_simp
  have t: "split ''n1 0 0 0'' = [''n1'', ''0'', ''0'', ''0'']" by code_simp
  have k: "lower ''n1'' = ''n1''" by code_simp
  have c: "\<not> startswith ''n1 0 0 0'' (CHR ''#'')" "startswith ''n1'' (CHR ''n'')" by code_simp+
  show ?thesis
    using c assms by (simp add: parse_line_def s t k Let_def vertex_line_def)
qed

lemma face_line_example: "vertices st = [] \<Longrightarrow> parse_line pf st ''e1 1 1 1'' = st"
proof -
  assume v: "vertices st = []"
  have f: "is_face_line ''e1 1 1 1''" by code_simp
  have b: "\<exists>t \<in> set (take 3 (tl (split (strip ''e1 1 1 1'')))). bad_index 0 t" by code_simp
  show ?thesis
    unfolding parse_line_face [OF f] using b v by (intro face_line_dropped) simp
qed

lemma example_lines: "splitlines ''e1 1 1 1\<newline>n1 0 0 0'' = [''e1 1 1 1'', ''n1 0 0 0'']"
  by code_simp

text \<open>
  C3. A face line is dropped as a whole when one of its first three index tokens does not
  convert to an integer or resolves to a zero-based index outside \<open>[0, vertex_count)\<close>:
  the document parses as if the line were absent. Every face that is stored has its three
  indices inside the range of the parsed vertices, so no clamped or partly valid face
  exists. The index token \<open>0\<close> resolves to \<open>-1\<close> and drops the face.
\<close>

theorem face_index_bounds:
  assumes "splitlines filetext = pre @ l # post"
    and "is_face_line l"
    and "\<exists>t \<in> set (face_tokens l). bad_index (length (vertices (parse_vpg_text pf filetext))) t"
  shows "parse_vpg_text pf filetext = parse_lines pf (pre @ post) \<and>
         (\<forall>tri \<in> set (indices (parse_vpg_text pf filetext)).
            tri_in_range (length (vertices (parse_vpg_text pf filetext))) tri)"
proof -
  have le: "length (vertices (parse_lines pf pre)) \<le> length (vertices (parse_vpg_text pf filetext))"
    using parse_lines_prefix_length [of pf pre "l # post"] assms(1)
    by (simp add: parse_vpg_text_def)
  from assms(3) obtain t where "t \<in> set (face_tokens l)"
    and "bad_index (length (vertices (parse_vpg_text pf filetext))) t" by blast
  then have "\<exists>t \<in> set (face_tokens l). bad_index (length (vertices (parse_lines pf pre))) t"
    using bad_index_mono [OF _ le] by blast
  then have "parse_vpg_text pf filetext = parse_lines pf (pre @ post)"
    using parse_lines_drop_face [OF assms(2)] assms(1) by (simp add: parse_vpg_text_def)
  then show ?thesis using parse_vpg_text_in_range [of pf filetext] by simp
qed

theorem face_index_bounds_witness:
  "splitlines ''n1 0 0 0\<newline>e1 0 1 1'' = [''n1 0 0 0''] @ ''e1 0 1 1'' # [] \<and>
   is_face_line ''e1 0 1 1'' \<and>
   (\<exists>t \<in> set (face_tokens ''e1 0 1 1'').
      bad_index (length (vertices (parse_vpg_text plain_float ''n1 0 0 0\<newline>e1 0 1 1''))) t) \<and>
   parse_vpg_text plain_float ''n1 0 0 0\<newline>e1 0 1 1'' = parse_lines plain_float ([''n1 0 0 0''] @ []) \<and>
   indices (parse_vpg_text plain_float ''n1 0 0 0\<newline>e1 0 1 1'') = []"
proof -
  have h1: "splitlines ''n1 0 0 0\<newline>e1 0 1 1'' = [''n1 0 0 0''] @ ''e1 0 1 1'' # []"
    by code_simp
  have h2: "is_face_line ''e1 0 1 1''"
    by code_simp
  have h3: "\<exists>t \<in> set (face_tokens ''e1 0 1 1'').
      bad_index (length (vertices (parse_vpg_text plain_float ''n1 0 0 0\<newline>e1 0 1 1''))) t"
    by code_simp
  have h4: "indices (parse_vpg_text plain_float ''n1 0 0 0\<newline>e1 0 1 1'') = []"
    by code_simp
  show ?thesis
    using face_index_bounds [OF h1 h2 h3] h1 h2 h3 h4 by simp
qed

text \<open>
  C9. The bound a face line is checked against is the number of vertices parsed before
  the line: a face line with a token that is bad for that number is dropped, whatever
  follows it. In \<open>e1 1 1 1\<close> followed by \<open>n1 0 0 0\<close> the face is dropped although index 0
  exists in the complete document: one vertex, no face.
\<close>

theorem faces_checked_against_vertices_so_far:
  "(\<forall>filetext pre l post.
      splitlines filetext = pre @ l # post \<and> is_face_line l \<and>
      (\<exists>t \<in> set (face_tokens l). bad_index (length (vertices (parse_lines pf pre))) t)
      \<longrightarrow> parse_vpg_text pf filetext = parse_lines pf (pre @ post)) \<and>
   (\<forall>z. pf ''0'' = Some z \<longrightarrow>
      vertices (parse_vpg_text pf ''e1 1 1 1\<newline>n1 0 0 0'') = [(z, z, z)] \<and>
      indices (parse_vpg_text pf ''e1 1 1 1\<newline>n1 0 0 0'') = [])"
proof (intro conjI allI impI)
  fix filetext pre l post
  assume h: "splitlines filetext = pre @ l # post \<and> is_face_line l \<and>
      (\<exists>t \<in> set (face_tokens l). bad_index (length (vertices (parse_lines pf pre))) t)"
  then have "parse_lines pf (pre @ l # post) = parse_lines pf (pre @ post)"
    by (intro parse_lines_drop_face) simp_all
  with h show "parse_vpg_text pf filetext = parse_lines pf (pre @ post)"
    by (simp add: parse_vpg_text_def)
next
  fix z assume z: "pf ''0'' = Some z"
  have st: "parse_vpg_text pf ''e1 1 1 1\<newline>n1 0 0 0'' =
      init_state\<lparr>vertices := [(z, z, z)], node_index_to_id := [''n1''],
                 node_id_to_index := [''n1'' \<mapsto> 0]\<rparr>"
    by (simp add: parse_vpg_text_def parse_lines_def example_lines face_line_example
        vertex_line_example [of pf z, OF z] init_state_def)
  show "vertices (parse_vpg_text pf ''e1 1 1 1\<newline>n1 0 0 0'') = [(z, z, z)]"
    by (simp add: st)
  show "indices (parse_vpg_text pf ''e1 1 1 1\<newline>n1 0 0 0'') = []"
    by (simp add: st init_state_def)
qed


theorem faces_checked_against_vertices_so_far_witness:
  "plain_float ''0'' = Some 0 \<and>
   vertices (parse_vpg_text plain_float ''e1 1 1 1\<newline>n1 0 0 0'') = [(0, 0, 0)] \<and>
   indices (parse_vpg_text plain_float ''e1 1 1 1\<newline>n1 0 0 0'') = [] \<and>
   splitlines ''e1 1 1 1\<newline>n1 0 0 0'' = [] @ ''e1 1 1 1'' # [''n1 0 0 0''] \<and>
   is_face_line ''e1 1 1 1'' \<and>
   (\<exists>t \<in> set (face_tokens ''e1 1 1 1'').
      bad_index (length (vertices (parse_lines plain_float ([] :: string list)))) t) \<and>
   parse_vpg_text plain_float ''e1 1 1 1\<newline>n1 0 0 0'' = parse_lines plain_float ([] @ [''n1 0 0 0''])"
proof -
  have h0: "plain_float ''0'' = Some 0" by code_simp
  have h1: "splitlines ''e1 1 1 1\<newline>n1 0 0 0'' = [] @ ''e1 1 1 1'' # [''n1 0 0 0'']" by code_simp
  have h2: "is_face_line ''e1 1 1 1''" by code_simp
  have h3: "\<exists>t \<in> set (face_tokens ''e1 1 1 1'').
      bad_index (length (vertices (parse_lines plain_float ([] :: string list)))) t" by code_simp
  note inst = faces_checked_against_vertices_so_far [of plain_float]
  have a: "parse_vpg_text plain_float ''e1 1 1 1\<newline>n1 0 0 0'' = parse_lines plain_float ([] @ [''n1 0 0 0''])"
    using inst [THEN conjunct1, rule_format, of "''e1 1 1 1\<newline>n1 0 0 0''" "[]" "''e1 1 1 1''" "[''n1 0 0 0'']"]
      h1 h2 h3 by blast
  have b: "vertices (parse_vpg_text plain_float ''e1 1 1 1\<newline>n1 0 0 0'') = [(0, 0, 0)] \<and>
   indices (parse_vpg_text plain_float ''e1 1 1 1\<newline>n1 0 0 0'') = []"
    using inst [THEN conjunct2, rule_format, OF h0] .
  show ?thesis using h0 h1 h2 h3 a b by blast
qed

subsection \<open>Vertex lines\<close>

lemma vertex_entry_valid: "valid_vertex_line pf raw = (vertex_entry pf raw \<noteq> None)"
  by (auto simp: valid_vertex_line_def is_vertex_line_def vertex_entry_def Let_def
      split: option.splits)

lemma vertex_entry_key:
  "vertex_entry pf raw = Some (key, p) \<Longrightarrow> line_key raw = Some key"
  by (auto simp: vertex_entry_def Let_def split: option.splits if_splits)

lemma parse_line_entry:
  assumes "vertex_entry pf raw = Some (key, p)"
  shows "parse_line pf st raw =
      (if node_id_to_index st key \<noteq> None then st
       else st\<lparr>vertices := vertices st @ [p],
               node_index_to_id := node_index_to_id st @ [key],
               node_id_to_index := (node_id_to_index st)(key \<mapsto> length (vertices st))\<rparr>)"
  using assms
  by (auto simp: vertex_entry_def line_key_def parse_line_def Let_def vertex_line_def
      split: if_splits list.splits option.splits)

lemma parse_line_no_entry:
  assumes "vertex_entry pf raw = None"
  shows "vertices (parse_line pf st raw) = vertices st"
    and "node_index_to_id (parse_line pf st raw) = node_index_to_id st"
    and "node_id_to_index (parse_line pf st raw) = node_id_to_index st"
  using assms
  by (auto simp: vertex_entry_def line_key_def parse_line_def Let_def
      vertex_line_def face_line_frame split: if_splits list.splits option.splits)

lemma valid_entries_Cons:
  "valid_entries pf (l # ls) =
     (case vertex_entry pf l of None \<Rightarrow> valid_entries pf ls | Some e \<Rightarrow> e # valid_entries pf ls)"
  by (simp add: valid_entries_def List.map_filter_simps split: option.splits)

lemma foldl_parse_line_entries:
  assumes "scan_inv st"
  shows "node_index_to_id (foldl (parse_line pf) st ls) =
           node_index_to_id st @ map fst (keep_first (set (node_index_to_id st)) (valid_entries pf ls)) \<and>
         vertices (foldl (parse_line pf) st ls) =
           vertices st @ map snd (keep_first (set (node_index_to_id st)) (valid_entries pf ls)) \<and>
         scan_inv (foldl (parse_line pf) st ls)"
  using assms
proof (induction ls arbitrary: st)
  case Nil
  then show ?case by (simp add: valid_entries_def List.map_filter_simps)
next
  case (Cons l ls)
  show ?case
  proof (cases "vertex_entry pf l")
    case None
    have inv: "scan_inv (parse_line pf st l)"
      using Cons.prems by (simp add: scan_inv_def parse_line_no_entry [OF None])
    show ?thesis
      using Cons.IH [OF inv]
      by (simp add: valid_entries_Cons None parse_line_no_entry [OF None])
  next
    case (Some e)
    obtain key p where e: "e = (key, p)" by (cases e)
    note step = parse_line_entry [OF Some [unfolded e], of st]
    show ?thesis
    proof (cases "key \<in> set (node_index_to_id st)")
      case True
      then have "node_id_to_index st key \<noteq> None"
        using Cons.prems by (auto simp: scan_inv_def)
      then have s: "parse_line pf st l = st" using step by simp
      show ?thesis
        using Cons.IH [OF Cons.prems] True by (simp add: valid_entries_Cons Some e s)
    next
      case False
      then have none: "node_id_to_index st key = None"
        using Cons.prems by (auto simp: scan_inv_def)
      let ?st' = "st\<lparr>vertices := vertices st @ [p],
               node_index_to_id := node_index_to_id st @ [key],
               node_id_to_index := (node_id_to_index st)(key \<mapsto> length (vertices st))\<rparr>"
      have s: "parse_line pf st l = ?st'" using step none by simp
      have inv: "scan_inv ?st'" using Cons.prems by (auto simp: scan_inv_def)
      have seen: "set (node_index_to_id ?st') = insert key (set (node_index_to_id st))" by simp
      show ?thesis
        using Cons.IH [OF inv] False unfolding seen
        by (simp add: valid_entries_Cons Some e s)
    qed
  qed
qed

lemma keep_first_distinct:
  assumes "distinct (map fst es)" and "set (map fst es) \<inter> seen = {}"
  shows "keep_first seen es = es"
  using assms by (induction es arbitrary: seen) auto

lemma valid_entries_keys: "map fst (valid_entries pf ls) = valid_keys pf ls"
proof (induction ls)
  case Nil
  show ?case by (simp add: valid_entries_def valid_keys_def List.map_filter_simps)
next
  case (Cons l ls)
  show ?case
  proof (cases "vertex_entry pf l")
    case None
    then have "\<not> valid_vertex_line pf l" by (simp add: vertex_entry_valid)
    then show ?thesis using Cons None by (simp add: valid_entries_Cons valid_keys_def)
  next
    case (Some e)
    obtain key p where e: "e = (key, p)" by (cases e)
    have v: "valid_vertex_line pf l" using Some by (simp add: vertex_entry_valid)
    have k: "line_key l = Some key" using Some e vertex_entry_key by blast
    show ?thesis using Cons Some e v k by (simp add: valid_entries_Cons valid_keys_def)
  qed
qed

lemma valid_entries_length:
  "length (valid_entries pf ls) = length (filter (valid_vertex_line pf) ls)"
  using valid_entries_keys [of pf ls, THEN arg_cong, of length] by (simp add: valid_keys_def)


text \<open>
  C2 (amended). Parsing is total: every conversion that can raise is caught where it is
  made, so a malformed line leaves the state as it was. The vertices of the parse are
  the valid entries of the text (id and coordinates of each valid vertex line, in order)
  with every entry dropped whose lower-cased id occurred in an earlier valid line: a
  malformed vertex line adds nothing, and a valid line that repeats an id adds nothing.
  When the valid vertex lines carry pairwise distinct ids, the parse has exactly one
  vertex for each of them, with its coordinates, in order.
\<close>

theorem line_local_recovery:
  "node_index_to_id (parse_vpg_text pf filetext) =
     map fst (keep_first {} (valid_entries pf (splitlines filetext))) \<and>
   vertices (parse_vpg_text pf filetext) =
     map snd (keep_first {} (valid_entries pf (splitlines filetext))) \<and>
   (distinct (valid_keys pf (splitlines filetext)) \<longrightarrow>
      vertices (parse_vpg_text pf filetext) = map snd (valid_entries pf (splitlines filetext)) \<and>
      length (vertices (parse_vpg_text pf filetext)) =
        length (filter (valid_vertex_line pf) (splitlines filetext)))"
proof -
  let ?es = "valid_entries pf (splitlines filetext)"
  have inv: "scan_inv (init_state :: 'a parse_state)" by (simp add: scan_inv_def init_state_def)
  have a: "node_index_to_id (parse_vpg_text pf filetext) = map fst (keep_first {} ?es)"
    and b: "vertices (parse_vpg_text pf filetext) = map snd (keep_first {} ?es)"
    using foldl_parse_line_entries [OF inv, of pf "splitlines filetext"]
    by (simp_all add: parse_vpg_text_def parse_lines_def init_state_def)
  have c: "keep_first {} ?es = ?es" if "distinct (valid_keys pf (splitlines filetext))"
    using that by (intro keep_first_distinct) (simp_all add: valid_entries_keys)
  show ?thesis
    using a b c valid_entries_length [of pf "splitlines filetext"] by simp
qed

theorem line_local_recovery_witness:
  "distinct (valid_keys plain_float (splitlines ''n1 0 0 0\<newline>n2 x 0 0\<newline>n3\<newline>n4 1 1 1'')) \<and>
   length (filter (malformed_vertex_line plain_float)
             (splitlines ''n1 0 0 0\<newline>n2 x 0 0\<newline>n3\<newline>n4 1 1 1'')) = 2 \<and>
   length (filter (valid_vertex_line plain_float)
             (splitlines ''n1 0 0 0\<newline>n2 x 0 0\<newline>n3\<newline>n4 1 1 1'')) = 2 \<and>
   length (vertices (parse_vpg_text plain_float ''n1 0 0 0\<newline>n2 x 0 0\<newline>n3\<newline>n4 1 1 1'')) = 2 \<and>
   vertices (parse_vpg_text plain_float ''n1 0 0 0\<newline>n2 x 0 0\<newline>n3\<newline>n4 1 1 1'') =
     [(0, 0, 0), (1, 1, 1)] \<and>
   node_index_to_id (parse_vpg_text plain_float ''n1 0 0 0\<newline>n2 x 0 0\<newline>n3\<newline>n4 1 1 1'') =
     [''n1'', ''n4'']"
proof -
  let ?t = "''n1 0 0 0\<newline>n2 x 0 0\<newline>n3\<newline>n4 1 1 1''"
  have h: "distinct (valid_keys plain_float (splitlines ?t))"
    by code_simp
  have m: "length (filter (malformed_vertex_line plain_float) (splitlines ?t)) = 2"
    by code_simp
  have v: "length (filter (valid_vertex_line plain_float) (splitlines ?t)) = 2"
    by code_simp
  have e: "valid_entries plain_float (splitlines ?t) = [(''n1'', (0, 0, 0)), (''n4'', (1, 1, 1))]"
    by code_simp
  have k: "keep_first {} [(''n1'', (0::nat, 0::nat, 0::nat)), (''n4'', (1, 1, 1))] =
             [(''n1'', (0, 0, 0)), (''n4'', (1, 1, 1))]"
    by simp
  note r = line_local_recovery [of plain_float ?t]
  have ids: "node_index_to_id (parse_vpg_text plain_float ?t) = [''n1'', ''n4'']"
    using r [THEN conjunct1] by (simp only: e k list.map fst_conv)
  have vs: "vertices (parse_vpg_text plain_float ?t) = [(0, 0, 0), (1, 1, 1)]"
    using r [THEN conjunct2, THEN conjunct2, rule_format, OF h, THEN conjunct1]
    by (simp only: e list.map snd_conv)
  have len: "length (vertices (parse_vpg_text plain_float ?t)) = 2"
    using r [THEN conjunct2, THEN conjunct2, rule_format, OF h, THEN conjunct2]
    by (simp only: v)
  show ?thesis using h m v len vs ids by blast
qed


text \<open>
  C2 as stated fails when two valid vertex lines share an id: two valid lines and one
  malformed line give a single vertex.
\<close>

theorem duplicate_id_counterexample:
  "length (filter (malformed_vertex_line plain_float)
             (splitlines ''n1 0 0 0\<newline>n1 1 1 1\<newline>n2 x 0 0'')) = 1 \<and>
   length (filter (valid_vertex_line plain_float)
             (splitlines ''n1 0 0 0\<newline>n1 1 1 1\<newline>n2 x 0 0'')) = 2 \<and>
   length (vertices (parse_vpg_text plain_float ''n1 0 0 0\<newline>n1 1 1 1\<newline>n2 x 0 0'')) = 1"
  by code_simp

section \<open>Properties of the text merge\<close>

lemma enumerate_filter_fst:
  "map fst (filter (\<lambda>(idx, line). P line) (enumerate n xs)) =
     filter (\<lambda>k. P (xs ! (k - n))) [n ..< n + length xs]"
proof (induction xs arbitrary: n)
  case Nil
  show ?case by simp
next
  case (Cons x xs)
  have eq: "filter (\<lambda>k. P ((x # xs) ! (k - n))) [Suc n ..< Suc n + length xs] =
        filter (\<lambda>k. P (xs ! (k - Suc n))) [Suc n ..< Suc n + length xs]"
  proof (rule filter_cong [OF refl])
    fix k assume "k \<in> set [Suc n ..< Suc n + length xs]"
    then have "k - n = Suc (k - Suc n)" by auto
    then show "P ((x # xs) ! (k - n)) = P (xs ! (k - Suc n))" by simp
  qed
  have up: "[n ..< n + length (x # xs)] = n # [Suc n ..< Suc n + length xs]"
  proof -
    have "n < n + length (x # xs)" by simp
    then have "[n ..< n + length (x # xs)] = n # [Suc n ..< n + length (x # xs)]"
      by (rule upt_conv_Cons)
    moreover have "n + length (x # xs) = Suc n + length xs" by simp
    ultimately show ?thesis by (simp only:)
  qed
  have "map fst (filter (\<lambda>(idx, line). P line) (enumerate n (x # xs))) =
        (if P x then [n] else []) @ map fst (filter (\<lambda>(idx, line). P line) (enumerate (Suc n) xs))"
    by simp
  also have "\<dots> = (if P x then [n] else []) @ filter (\<lambda>k. P (xs ! (k - Suc n))) [Suc n ..< Suc n + length xs]"
    by (simp only: Cons.IH [of "Suc n"])
  also have "\<dots> = (if P x then [n] else []) @ filter (\<lambda>k. P ((x # xs) ! (k - n))) [Suc n ..< Suc n + length xs]"
    by (simp only: eq)
  also have "\<dots> = filter (\<lambda>k. P ((x # xs) ! (k - n))) (n # [Suc n ..< Suc n + length xs])"
    by simp
  finally show ?case by (simp only: up)
qed

lemma geometry_indices_of_filter:
  "geometry_indices_of ls = filter (\<lambda>k. is_geometry_line (ls ! k)) [0 ..< length ls]"
  using enumerate_filter_fst [of is_geometry_line 0 ls] by (simp add: geometry_indices_of_def)

lemma hd_filter_upt:
  assumes "i < n" "P i" "\<forall>k<i. \<not> P k"
  shows "hd (filter P [0 ..< n]) = i"
proof -
  have "[0 ..< n] = [0 ..< i] @ i # [Suc i ..< n]"
    using assms(1) by (metis less_imp_le_nat upt_add_eq_append upt_conv_Cons le0 le_add_diff_inverse)
  moreover have "filter P [0 ..< i] = []" using assms(3) by (simp add: filter_empty_conv)
  ultimately show ?thesis using assms(2) by simp
qed

lemma last_filter_upt:
  assumes "j < n" "P j" "\<forall>k. j < k \<and> k < n \<longrightarrow> \<not> P k"
  shows "last (filter P [0 ..< n]) = j"
proof -
  have "[0 ..< n] = [0 ..< j] @ j # [Suc j ..< n]"
    using assms(1) by (metis less_imp_le_nat upt_add_eq_append upt_conv_Cons le0 le_add_diff_inverse)
  moreover have "filter P [Suc j ..< n] = []" using assms(3) by (auto simp: filter_empty_conv)
  ultimately show ?thesis using assms(2) by simp
qed

lemma merge_block:
  assumes g: "geometry_lines \<noteq> []"
    and i: "i < length (splitlines base_text)" "is_geometry_line (splitlines base_text ! i)"
           "\<forall>k<i. \<not> is_geometry_line (splitlines base_text ! k)"
    and j: "j < length (splitlines base_text)" "is_geometry_line (splitlines base_text ! j)"
           "\<forall>k. j < k \<and> k < length (splitlines base_text) \<longrightarrow> \<not> is_geometry_line (splitlines base_text ! k)"
  shows "merge_geometry_with_existing base_text geometry_lines =
           join [CHR 0x0A]
             (take i (splitlines base_text) @ sep_before (take i (splitlines base_text)) @
              geometry_lines @
              sep_after geometry_lines (drop (j + 1) (splitlines base_text)) @
              drop (j + 1) (splitlines base_text))"
proof -
  let ?ls = "splitlines base_text"
  have h: "hd (geometry_indices_of ?ls) = i"
    unfolding geometry_indices_of_filter using i by (rule hd_filter_upt)
  have l: "last (geometry_indices_of ?ls) = j"
    unfolding geometry_indices_of_filter using j by (rule last_filter_upt)
  have ne: "geometry_indices_of ?ls \<noteq> []"
    unfolding geometry_indices_of_filter using i(1,2) by (auto simp: filter_empty_conv)
  show ?thesis
    using g ne by (simp add: merge_geometry_with_existing_def Let_def h l sep_before_def sep_after_def)
qed

lemma merge_append:
  assumes g: "geometry_lines \<noteq> []"
    and n: "\<forall>l \<in> set (splitlines base_text). \<not> is_geometry_line l"
  shows "merge_geometry_with_existing base_text geometry_lines =
           join [CHR 0x0A] (splitlines base_text @ sep_before (splitlines base_text) @ geometry_lines)"
proof -
  have "geometry_indices_of (splitlines base_text) = []"
    unfolding geometry_indices_of_filter using n by (auto simp: filter_empty_conv)
  then show ?thesis
    using g by (simp add: merge_geometry_with_existing_def Let_def sep_before_def)
qed


text \<open>
  C6 (amended). For a non-empty list of new geometry lines: when the base text has
  geometry lines, the block from the first of them (index \<open>i\<close>) to the last (index \<open>j\<close>)
  is replaced by the new lines, the lines before and after are kept as they are, and an
  empty line is put between them and the new lines exactly where a non-blank line would
  touch the block; when the base text has no geometry line, the new lines are appended,
  after an empty line when the last line of the base is not blank. The result is the
  join of these lines with \<open>\n\<close>.
\<close>

theorem merge_replaces_geometry_block:
  assumes "geometry_lines \<noteq> []"
  shows "(\<forall>i j. i < length (splitlines base_text) \<and> is_geometry_line (splitlines base_text ! i) \<and>
            (\<forall>k<i. \<not> is_geometry_line (splitlines base_text ! k)) \<and>
            j < length (splitlines base_text) \<and> is_geometry_line (splitlines base_text ! j) \<and>
            (\<forall>k. j < k \<and> k < length (splitlines base_text) \<longrightarrow> \<not> is_geometry_line (splitlines base_text ! k))
          \<longrightarrow> merge_geometry_with_existing base_text geometry_lines =
                join [CHR 0x0A]
                  (take i (splitlines base_text) @ sep_before (take i (splitlines base_text)) @
                   geometry_lines @
                   sep_after geometry_lines (drop (j + 1) (splitlines base_text)) @
                   drop (j + 1) (splitlines base_text))) \<and>
         ((\<forall>l \<in> set (splitlines base_text). \<not> is_geometry_line l)
          \<longrightarrow> merge_geometry_with_existing base_text geometry_lines =
                join [CHR 0x0A] (splitlines base_text @ sep_before (splitlines base_text) @ geometry_lines))"
  using merge_block [OF assms] merge_append [OF assms] by blast

theorem merge_replaces_geometry_block_witness:
  "[''n1 1 1 1''] \<noteq> [] \<and>
   splitlines ''# header\<newline>n1 0 0 0\<newline>e1 1 1 1\<newline>'' = [''# header'', ''n1 0 0 0'', ''e1 1 1 1''] \<and>
   \<not> is_geometry_line ''# header'' \<and> is_geometry_line ''n1 0 0 0'' \<and> is_geometry_line ''e1 1 1 1'' \<and>
   merge_geometry_with_existing ''# header\<newline>n1 0 0 0\<newline>e1 1 1 1\<newline>'' [''n1 1 1 1''] =
     join [CHR 0x0A] [''# header'', [], ''n1 1 1 1''] \<and>
   hd (splitlines (merge_geometry_with_existing ''# header\<newline>n1 0 0 0\<newline>e1 1 1 1\<newline>'' [''n1 1 1 1'']))
     = ''# header'' \<and>
   filter is_geometry_line
     (splitlines (merge_geometry_with_existing ''# header\<newline>n1 0 0 0\<newline>e1 1 1 1\<newline>'' [''n1 1 1 1'']))
     = [''n1 1 1 1'']"
proof -
  let ?b = "''# header\<newline>n1 0 0 0\<newline>e1 1 1 1\<newline>''"
  have g: "[''n1 1 1 1''] \<noteq> []" by simp
  have s: "splitlines ?b = [''# header'', ''n1 0 0 0'', ''e1 1 1 1'']" by code_simp
  have c0: "\<not> is_geometry_line ''# header''" by code_simp
  have c1: "is_geometry_line ''n1 0 0 0''" by code_simp
  have c2: "is_geometry_line ''e1 1 1 1''" by code_simp
  have sb: "sep_before [''# header''] = [[]]" by code_simp
  have sa: "sep_after [''n1 1 1 1''] [] = []" by code_simp
  have m: "merge_geometry_with_existing ?b [''n1 1 1 1''] =
     join [CHR 0x0A] [''# header'', [], ''n1 1 1 1'']"
    using merge_replaces_geometry_block [OF g, of ?b, THEN conjunct1, rule_format, of 1 2]
    by (simp add: s c0 c1 c2 sb sa)
  have h: "hd (splitlines (join [CHR 0x0A] [''# header'', [], ''n1 1 1 1''])) = ''# header''"
    by code_simp
  have f: "filter is_geometry_line (splitlines (join [CHR 0x0A] [''# header'', [], ''n1 1 1 1'']))
     = [''n1 1 1 1'']"
    by code_simp
  show ?thesis using g s c0 c1 c2 m h f by simp
qed


text \<open>
  C6 as stated fails for an empty list of new lines: the base text is returned as it is,
  its geometry block still in place.
\<close>

theorem merge_empty_lines_counterexample:
  "merge_geometry_with_existing ''# header\<newline>n1 0 0 0\<newline>e1 1 1 1\<newline>'' [] =
     ''# header\<newline>n1 0 0 0\<newline>e1 1 1 1\<newline>'' \<and>
   filter is_geometry_line
     (splitlines (merge_geometry_with_existing ''# header\<newline>n1 0 0 0\<newline>e1 1 1 1\<newline>'' []))
     = [''n1 0 0 0'', ''e1 1 1 1'']"
  by code_simp

section \<open>Decimal numbers: printing and reading back\<close>

lemma digit_char_cases:
  assumes "d < 10"
  shows "is_dec_digit (digit_char d) \<and> digit_val (digit_char d) = d"
proof -
  from assms have "d \<in> {0, 1, 2, 3, 4, 5, 6, 7, 8, 9}" by auto
  then show ?thesis
    by (auto simp: digit_char_def digit_chars_def is_dec_digit_def digit_val_def)
qed

lemma is_dec_digit_digit_char: "is_dec_digit (digit_char d)"
proof -
  have "is_dec_digit (digit_char (d mod 10))"
    using digit_char_cases [of "d mod 10"] by simp
  then show ?thesis by (simp add: digit_char_def)
qed

lemma digit_val_digit_char: "d < 10 \<Longrightarrow> digit_val (digit_char d) = d"
  using digit_char_cases by blast

lemma str_nat_digits: "list_all is_dec_digit (str_nat n)"
proof (induction n rule: str_nat.induct)
  case (1 n)
  show ?case
  proof (cases "n < 10")
    case True
    then show ?thesis by (simp add: str_nat.simps [of n] is_dec_digit_digit_char)
  next
    case False
    then show ?thesis
      using 1 by (simp add: str_nat.simps [of n] is_dec_digit_digit_char)
  qed
qed

lemma str_nat_nonempty: "str_nat n \<noteq> []"
  by (simp add: str_nat.simps [of n])

lemma dec_value_snoc:
  assumes "list_all is_dec_digit ds" "is_dec_digit d"
  shows "dec_value acc (ds @ [d]) = map_option (\<lambda>v. 10 * v + digit_val d) (dec_value acc ds)"
  using assms by (induction ds arbitrary: acc) simp_all

lemma py_nat_snoc:
  assumes "list_all is_dec_digit ds" "ds \<noteq> []" "is_dec_digit d"
  shows "py_nat (ds @ [d]) = map_option (\<lambda>v. 10 * v + digit_val d) (py_nat ds)"
proof -
  from assms(2) obtain c cs where ds: "ds = c # cs" by (cases ds) auto
  with assms(1) have c: "is_dec_digit c" and cs: "list_all is_dec_digit cs" by simp_all
  show ?thesis
    using c by (simp add: ds py_nat_def dec_value_snoc [OF cs assms(3)])
qed

lemma py_nat_str_nat: "py_nat (str_nat n) = Some n"
proof (induction n rule: str_nat.induct)
  case (1 n)
  show ?case
  proof (cases "n < 10")
    case True
    then show ?thesis
      by (simp add: str_nat.simps [of n] py_nat_def is_dec_digit_digit_char digit_val_digit_char)
  next
    case False
    have s: "str_nat n = str_nat (n div 10) @ [digit_char (n mod 10)]"
      using False by (subst str_nat.simps) simp
    have ih: "py_nat (str_nat (n div 10)) = Some (n div 10)"
      using 1 False by simp
    have dv: "digit_val (digit_char (n mod 10)) = n mod 10"
      by (rule digit_val_digit_char) simp
    have "py_nat (str_nat (n div 10) @ [digit_char (n mod 10)]) =
            map_option (\<lambda>v. 10 * v + digit_val (digit_char (n mod 10))) (py_nat (str_nat (n div 10)))"
      by (rule py_nat_snoc [OF str_nat_digits str_nat_nonempty is_dec_digit_digit_char])
    also have "\<dots> = Some (10 * (n div 10) + n mod 10)"
      by (simp only: ih dv option.map)
    also have "\<dots> = Some n" by simp
    finally show ?thesis by (simp only: s)
  qed
qed

lemma str_nat_inj:
  assumes "str_nat a = str_nat b"
  shows "a = b"
proof -
  have "py_nat (str_nat a) = py_nat (str_nat b)" by (simp only: assms)
  then show ?thesis by (simp only: py_nat_str_nat option.inject)
qed

lemma expected_id_inj:
  assumes "expected_id a = expected_id b"
  shows "a = b"
proof -
  from assms have "str_nat (a + 1) = str_nat (b + 1)" by (simp only: expected_id_def list.inject)
  then have "a + 1 = b + 1" by (rule str_nat_inj)
  then show ?thesis by simp
qed

lemma dec_digit_not_space: "is_dec_digit c \<Longrightarrow> \<not> is_space c"
  by (auto simp: is_dec_digit_def digit_chars_def is_space_def whitespace_chars_def)

lemma dec_digit_isdigit: "is_dec_digit c \<Longrightarrow> c \<in> set isdigit_chars"
  by (auto simp: is_dec_digit_def digit_chars_def isdigit_chars_def)

lemma strip_with_id:
  assumes "\<forall>c \<in> set s. \<not> p c"
  shows "strip_with p s = s"
proof -
  have d: "dropWhile p xs = xs" if "\<forall>c \<in> set xs. \<not> p c" for xs
    using that by (cases xs) simp_all
  show ?thesis
    using assms by (simp add: strip_with_def d)
qed

lemma strip_id: "\<forall>c \<in> set s. \<not> is_space c \<Longrightarrow> strip s = s"
  by (simp add: strip_def strip_with_id)

lemma str_nat_no_space: "\<forall>c \<in> set (str_nat n). \<not> is_space c"
  using str_nat_digits [of n] by (auto simp: list_all_iff dec_digit_not_space)

lemma expected_id_no_space: "\<forall>c \<in> set (expected_id k). \<not> is_space c"
  using str_nat_no_space [of "k + 1"]
  by (auto simp: expected_id_def is_space_def whitespace_chars_def)

lemma lower_char_n: "lower_char (CHR ''n'') = CHR ''n''"
  by (simp add: lower_char_def upper_chars_def lower_chars_def)

lemma isdigit_str_nat: "isdigit (str_nat n)"
  using str_nat_digits [of n] str_nat_nonempty [of n]
  by (auto simp: isdigit_def list_all_iff dec_digit_isdigit)

lemma expected_id_pattern: "\<not> id_pattern_fails (expected_id k)"
proof -
  have "str_nat (k + 1) \<noteq> []" by (rule str_nat_nonempty)
  then have "2 \<le> length (expected_id k)"
    by (cases "str_nat (k + 1)") (simp_all add: expected_id_def)
  moreover have "isdigit (tl (expected_id k))"
    using isdigit_str_nat [of "k + 1"] by (simp add: expected_id_def)
  moreover have "lower_char (hd (expected_id k)) = CHR ''n''"
    by (simp add: expected_id_def lower_char_n)
  ultimately show ?thesis by (simp add: id_pattern_fails_def)
qed

section \<open>Properties of the id assignment\<close>

lemma scan_vertex_entries:
  "vertex_entries (scan_vertex hl sc (i, v)) = vertex_entries sc @ [(v, own_id hl i v)]"
  by (simp add: scan_vertex_def Let_def own_id_def id_pattern_fails_def split: option.splits)

lemma scan_vertex_pattern:
  "numeric_pattern (scan_vertex hl sc (i, v)) = (numeric_pattern sc \<and> \<not> fails_entirely hl v)"
  by (auto simp: scan_vertex_def Let_def fails_entirely_def id_pattern_fails_def split: option.splits)

lemma scan_vertex_seen:
  "seen_numeric (scan_vertex hl sc (i, v)) = insert (own_id hl i v) (seen_numeric sc)"
  by (simp add: scan_vertex_def Let_def own_id_def id_pattern_fails_def split: option.splits)

lemma scan_vertex_dense:
  assumes "read_node_id hl v = Some (expected_id i)" and "expected_id i \<notin> seen_numeric sc"
  shows "needs_renumber (scan_vertex hl sc (i, v)) = needs_renumber sc"
proof -
  have ne: "expected_id i \<noteq> []" by (simp add: expected_id_def)
  have ok: "\<not> (length (expected_id i) < 2 \<or> lower_char (hd (expected_id i)) \<noteq> CHR ''n'' \<or>
              \<not> isdigit (tl (expected_id i)))"
    using expected_id_pattern [of i] by (simp add: id_pattern_fails_def)
  have nm: "CHR ''n'' # tl (expected_id i) = expected_id i" by (simp add: expected_id_def)
  show ?thesis
    using assms(2) ne ok by (simp add: scan_vertex_def Let_def assms(1) nm)
qed

lemma own_id_dense:
  assumes "read_node_id hl v = Some (expected_id i)"
  shows "own_id hl i v = expected_id i"
  using expected_id_pattern [of i] by (simp add: own_id_def assms expected_id_def)

lemma foldl_scan_entries:
  "vertex_entries (foldl (scan_vertex hl) sc ivs) =
     vertex_entries sc @ map (\<lambda>iv. (snd iv, own_id hl (fst iv) (snd iv))) ivs"
proof (induction ivs arbitrary: sc)
  case Nil
  show ?case by simp
next
  case (Cons iv ivs)
  obtain i v where iv: "iv = (i, v)" by (cases iv)
  show ?case by (simp add: Cons.IH iv scan_vertex_entries)
qed

lemma foldl_scan_pattern:
  "numeric_pattern (foldl (scan_vertex hl) sc ivs) =
     (numeric_pattern sc \<and> (\<forall>iv \<in> set ivs. \<not> fails_entirely hl (snd iv)))"
proof (induction ivs arbitrary: sc)
  case Nil
  show ?case by simp
next
  case (Cons iv ivs)
  obtain i v where iv: "iv = (i, v)" by (cases iv)
  show ?case by (auto simp: Cons.IH iv scan_vertex_pattern)
qed

lemma foldl_scan_dense:
  assumes "\<forall>k < length vs. read_node_id hl (vs ! k) = Some (expected_id (n + k))"
    and "seen_numeric sc \<subseteq> expected_id ` {..<n}"
  shows "needs_renumber (foldl (scan_vertex hl) sc (enumerate n vs)) = needs_renumber sc"
  using assms
proof (induction vs arbitrary: n sc)
  case Nil
  show ?case by simp
next
  case (Cons v vs)
  have r: "read_node_id hl v = Some (expected_id n)"
    using Cons.prems(1) by force
  have fresh: "expected_id n \<notin> seen_numeric sc"
  proof
    assume "expected_id n \<in> seen_numeric sc"
    with Cons.prems(2) obtain j where "j < n" "expected_id n = expected_id j" by auto
    then show False using expected_id_inj [of n j] by simp
  qed
  have rest: "\<forall>k < length vs. read_node_id hl (vs ! k) = Some (expected_id (Suc n + k))"
    using Cons.prems(1) by force
  have seen: "seen_numeric (scan_vertex hl sc (n, v)) \<subseteq> expected_id ` {..<Suc n}"
    using Cons.prems(2) by (auto simp: scan_vertex_seen own_id_dense [OF r] lessThan_Suc)
  show ?case
    using Cons.IH [OF rest seen] by (simp add: scan_vertex_dense [OF r fresh])
qed

lemma enumerate_map_nth:
  "map (\<lambda>iv. f (fst iv) (snd iv)) (enumerate n vs) = map (\<lambda>k. f (n + k) (vs ! k)) [0 ..< length vs]"
  by (rule nth_equalityI) (simp_all add: nth_enumerate_eq)

lemma read_node_id_dense:
  assumes "node_id_tag v = Some (expected_id k)"
  shows "read_node_id True v = Some (expected_id k)"
  using expected_id_no_space [of k]
  by (simp add: read_node_id_def assms strip_id) (simp add: expected_id_def)

lemma assign_ids_dense:
  assumes layer: "has_node_id_layer bm"
    and dense: "\<forall>k < length (verts bm). node_id_tag (verts bm ! k) = Some (expected_id k)"
  shows "assign_ids bm = map (\<lambda>k. (verts bm ! k, expected_id k)) [0 ..< length (verts bm)]"
proof -
  have r: "\<forall>k < length (verts bm). read_node_id True (verts bm ! k) = Some (expected_id (0 + k))"
    using dense by (simp add: read_node_id_dense)
  have nr: "needs_renumber (scan_vertices True (verts bm)) = False"
    unfolding scan_vertices_def
    using foldl_scan_dense [OF r, of init_scan] by (simp add: init_scan_def)
  have "vertex_entries (scan_vertices True (verts bm)) =
          map (\<lambda>k. (verts bm ! k, own_id True (0 + k) (verts bm ! k))) [0 ..< length (verts bm)]"
    unfolding scan_vertices_def foldl_scan_entries
    using enumerate_map_nth [of "\<lambda>i v. (v, own_id True i v)" 0 "verts bm"]
    by (simp add: init_scan_def)
  also have "\<dots> = map (\<lambda>k. (verts bm ! k, expected_id k)) [0 ..< length (verts bm)]"
    using r by (simp add: own_id_dense)
  finally show ?thesis
    using layer nr by (simp add: assign_ids_def Let_def)
qed

lemma ball_enumerate_snd:
  "(\<forall>iv \<in> set (enumerate n vs). Q (snd iv)) = (\<forall>v \<in> set vs. Q v)"
proof -
  have "set vs = snd ` set (enumerate n vs)"
    by (metis map_snd_enumerate set_map)
  then show ?thesis by auto
qed

lemma bex_enumerate_snd:
  "(\<exists>iv \<in> set (enumerate n vs). Q (snd iv)) = (\<exists>v \<in> set vs. Q v)"
  using ball_enumerate_snd [of n vs "\<lambda>v. \<not> Q v"] by blast


lemma mesh_to_vpg_text_dense:
  assumes layer: "has_node_id_layer bm"
    and dense: "\<forall>k < length (verts bm). node_id_tag (verts bm ! k) = Some (expected_id k)"
  shows "geometry_text_lines fstr bm =
           map (\<lambda>k. vertex_text_line fstr (verts bm ! k, expected_id k)) [0 ..< length (verts bm)] @
           face_text_lines 1 (faces bm)"
    and "snd (mesh_to_vpg_text fstr bm edit_mode base_text) = bm"
    and "fst (mesh_to_vpg_text fstr bm edit_mode base_text) =
           (case base_text of
              None \<Rightarrow> join [CHR 0x0A] (geometry_text_lines fstr bm)
            | Some base \<Rightarrow>
                if base = [] then join [CHR 0x0A] (geometry_text_lines fstr bm)
                else merge_geometry_with_existing base (geometry_text_lines fstr bm))"
proof -
  have a: "assign_ids bm = map (\<lambda>k. (verts bm ! k, expected_id k)) [0 ..< length (verts bm)]"
    by (rule assign_ids_dense [OF layer dense])
  show "geometry_text_lines fstr bm =
           map (\<lambda>k. vertex_text_line fstr (verts bm ! k, expected_id k)) [0 ..< length (verts bm)] @
           face_text_lines 1 (faces bm)"
    by (simp add: geometry_text_lines_def a comp_def)
  have "map fst (assign_ids bm) = verts bm"
    by (simp add: a comp_def map_nth)
  then show "snd (mesh_to_vpg_text fstr bm edit_mode base_text) = bm"
    by (simp add: mesh_to_vpg_text_def Let_def)
  show "fst (mesh_to_vpg_text fstr bm edit_mode base_text) =
           (case base_text of
              None \<Rightarrow> join [CHR 0x0A] (geometry_text_lines fstr bm)
            | Some base \<Rightarrow>
                if base = [] then join [CHR 0x0A] (geometry_text_lines fstr bm)
                else merge_geometry_with_existing base (geometry_text_lines fstr bm))"
    by (simp add: mesh_to_vpg_text_def Let_def)
qed


text \<open>
  C4. When the vertices of a mesh carry the stamped ids \<open>n1\<close>, \<open>n2\<close>, \<dots>, \<open>nK\<close> in vertex
  order, \<open>mesh_to_vpg_text\<close> writes the vertex line of vertex \<open>k\<close> with the id \<open>n<k+1>\<close>, its
  stamped id, followed by the coordinates, and leaves the mesh as it is. The same holds
  after any edit that keeps the vertices' stamped ids and changes their coordinates only:
  the text has the same ids, with or without a base text to merge into.
\<close>

theorem identity_stability:
  assumes "has_node_id_layer bm"
    and "\<forall>k < length (verts bm). node_id_tag (verts bm ! k) = Some (expected_id k)"
    and "length vs' = length (verts bm)"
    and "\<forall>k < length vs'. node_id_tag (vs' ! k) = node_id_tag (verts bm ! k)"
  shows "mesh_to_vpg_text fstr bm edit_mode None =
           (join [CHR 0x0A]
              (map (\<lambda>k. vertex_text_line fstr (verts bm ! k, expected_id k)) [0 ..< length (verts bm)] @
               face_text_lines 1 (faces bm)), bm) \<and>
         mesh_to_vpg_text fstr (bm\<lparr>verts := vs'\<rparr>) edit_mode None =
           (join [CHR 0x0A]
              (map (\<lambda>k. vertex_text_line fstr (vs' ! k, expected_id k)) [0 ..< length (verts bm)] @
               face_text_lines 1 (faces bm)), bm\<lparr>verts := vs'\<rparr>) \<and>
         fst (mesh_to_vpg_text fstr (bm\<lparr>verts := vs'\<rparr>) edit_mode (Some base)) =
           (if base = [] then
              join [CHR 0x0A]
                (map (\<lambda>k. vertex_text_line fstr (vs' ! k, expected_id k)) [0 ..< length (verts bm)] @
                 face_text_lines 1 (faces bm))
            else
              merge_geometry_with_existing base
                (map (\<lambda>k. vertex_text_line fstr (vs' ! k, expected_id k)) [0 ..< length (verts bm)] @
                 face_text_lines 1 (faces bm))) \<and>
         map snd (assign_ids (bm\<lparr>verts := vs'\<rparr>)) = map snd (assign_ids bm) \<and>
         map snd (assign_ids bm) = map expected_id [0 ..< length (verts bm)]"
proof -
  let ?bm' = "bm\<lparr>verts := vs'\<rparr>"
  have l': "has_node_id_layer ?bm'" using assms(1) by simp
  have d': "\<forall>k < length (verts ?bm'). node_id_tag (verts ?bm' ! k) = Some (expected_id k)"
    using assms(2,3,4) by simp
  note m = mesh_to_vpg_text_dense [OF assms(1,2)]
  note m' = mesh_to_vpg_text_dense [OF l' d']
  have g: "geometry_text_lines fstr bm =
           map (\<lambda>k. vertex_text_line fstr (verts bm ! k, expected_id k)) [0 ..< length (verts bm)] @
           face_text_lines 1 (faces bm)"
    by (rule m(1))
  have g': "geometry_text_lines fstr ?bm' =
           map (\<lambda>k. vertex_text_line fstr (vs' ! k, expected_id k)) [0 ..< length (verts bm)] @
           face_text_lines 1 (faces bm)"
    using m'(1) [of fstr] assms(3) by simp
  have c1: "mesh_to_vpg_text fstr bm edit_mode None =
           (join [CHR 0x0A]
              (map (\<lambda>k. vertex_text_line fstr (verts bm ! k, expected_id k)) [0 ..< length (verts bm)] @
               face_text_lines 1 (faces bm)), bm)"
    using m(2) [of fstr edit_mode None] m(3) [of fstr edit_mode None]
    by (simp add: g prod_eq_iff)
  have c2: "mesh_to_vpg_text fstr ?bm' edit_mode None =
           (join [CHR 0x0A]
              (map (\<lambda>k. vertex_text_line fstr (vs' ! k, expected_id k)) [0 ..< length (verts bm)] @
               face_text_lines 1 (faces bm)), ?bm')"
    using m'(2) [of fstr edit_mode None] m'(3) [of fstr edit_mode None]
    by (simp add: g' prod_eq_iff)
  have c3: "fst (mesh_to_vpg_text fstr ?bm' edit_mode (Some base)) =
           (if base = [] then
              join [CHR 0x0A]
                (map (\<lambda>k. vertex_text_line fstr (vs' ! k, expected_id k)) [0 ..< length (verts bm)] @
                 face_text_lines 1 (faces bm))
            else
              merge_geometry_with_existing base
                (map (\<lambda>k. vertex_text_line fstr (vs' ! k, expected_id k)) [0 ..< length (verts bm)] @
                 face_text_lines 1 (faces bm)))"
    using m'(3) [of fstr edit_mode "Some base"] by (simp add: g')
  have a: "assign_ids bm = map (\<lambda>k. (verts bm ! k, expected_id k)) [0 ..< length (verts bm)]"
    by (rule assign_ids_dense [OF assms(1,2)])
  have b: "assign_ids ?bm' = map (\<lambda>k. (vs' ! k, expected_id k)) [0 ..< length vs']"
    using assign_ids_dense [OF l' d'] by simp
  have c4: "map snd (assign_ids ?bm') = map snd (assign_ids bm)"
    by (simp add: a b assms(3) comp_def)
  have c5: "map snd (assign_ids bm) = map expected_id [0 ..< length (verts bm)]"
    by (simp add: a comp_def)
  show ?thesis using c1 c2 c3 c4 c5 by blast
qed


theorem identity_stability_witness:
  "has_node_id_layer (tagged_mesh [Some ''n1'', Some ''n2'']) \<and>
   length (verts (tagged_mesh [Some ''n1'', Some ''n2''])) = 2 \<and>
   node_id_tag (verts (tagged_mesh [Some ''n1'', Some ''n2'']) ! 0) = Some (expected_id 0) \<and>
   node_id_tag (verts (tagged_mesh [Some ''n1'', Some ''n2'']) ! 1) = Some (expected_id 1) \<and>
   fst (mesh_to_vpg_text plain_str (tagged_mesh [Some ''n1'', Some ''n2'']) False None) =
     ''n1 0.0 0.0 0.0\<newline>n2 0.0 0.0 0.0'' \<and>
   fst (mesh_to_vpg_text plain_str
         ((tagged_mesh [Some ''n1'', Some ''n2''])
              \<lparr>verts := [\<lparr>co = (5, 6, 7), node_id_tag = Some ''n1'', init_node_id_tag = None\<rparr>,
                         \<lparr>co = (1, 1, 1), node_id_tag = Some ''n2'', init_node_id_tag = None\<rparr>]\<rparr>)
         False None) =
     ''n1 5.0 6.0 7.0\<newline>n2 1.0 1.0 1.0''"
proof -
  let ?bm = "tagged_mesh [Some ''n1'', Some ''n2'']"
  let ?vs = "[\<lparr>co = (5, 6, 7), node_id_tag = Some ''n1'', init_node_id_tag = None\<rparr>,
              \<lparr>co = (1::nat, 1::nat, 1::nat), node_id_tag = Some ''n2'', init_node_id_tag = None\<rparr>]"
  have e: "expected_id 0 = ''n1''" "expected_id (Suc 0) = ''n2''" by code_simp+
  have l: "length (verts ?bm) = 2" by (simp add: tagged_mesh_def)
  have h1: "has_node_id_layer ?bm" by (simp add: tagged_mesh_def)
  have h2: "\<forall>k < length (verts ?bm). node_id_tag (verts ?bm ! k) = Some (expected_id k)"
    unfolding l by (simp add: tagged_mesh_def tagged_vert_def e less_Suc_eq numeral_2_eq_2)
  have h3: "length ?vs = length (verts ?bm)" by (simp add: l)
  have h4: "\<forall>k < length ?vs. node_id_tag (?vs ! k) = node_id_tag (verts ?bm ! k)"
    by (simp add: tagged_mesh_def tagged_vert_def less_Suc_eq numeral_2_eq_2)
  note r = identity_stability [OF h1 h2 h3 h4, of plain_str False]
  have t1: "join [CHR 0x0A]
              (map (\<lambda>k. vertex_text_line plain_str (verts ?bm ! k, expected_id k)) [0 ..< length (verts ?bm)] @
               face_text_lines 1 (faces ?bm)) = ''n1 0.0 0.0 0.0\<newline>n2 0.0 0.0 0.0''"
    by code_simp
  have t2: "join [CHR 0x0A]
              (map (\<lambda>k. vertex_text_line plain_str (?vs ! k, expected_id k)) [0 ..< length (verts ?bm)] @
               face_text_lines 1 (faces ?bm)) = ''n1 5.0 6.0 7.0\<newline>n2 1.0 1.0 1.0''"
    by code_simp
  have c1: "fst (mesh_to_vpg_text plain_str ?bm False None) = ''n1 0.0 0.0 0.0\<newline>n2 0.0 0.0 0.0''"
    using r [THEN conjunct1] by (simp only: t1 fst_conv)
  have c2: "fst (mesh_to_vpg_text plain_str (?bm\<lparr>verts := ?vs\<rparr>) False None) =
              ''n1 5.0 6.0 7.0\<newline>n2 1.0 1.0 1.0''"
    using r [THEN conjunct2, THEN conjunct1] by (simp only: t2 fst_conv)
  have t0: "node_id_tag (verts ?bm ! 0) = Some (expected_id 0)"
    by (simp add: tagged_mesh_def tagged_vert_def e)
  have t1': "node_id_tag (verts ?bm ! 1) = Some (expected_id 1)"
    by (simp add: tagged_mesh_def tagged_vert_def e)
  show ?thesis using h1 l t0 t1' c1 c2 by blast
qed

text \<open>
  C5 (amended). When some vertex carries a non-empty stamped id that fails the pattern
  \<open>n<digits>\<close>, the document is not renumbered: every vertex with a non-empty stamped id
  keeps it (an id that fails the pattern as it is, a matching id with \<open>n\<close> as its first
  letter), and only a vertex without a usable stamped id gets \<open>n<position+1>\<close>.
\<close>

theorem invalid_id_skips_renumbering:
  assumes "\<exists>v \<in> set (verts bm). fails_entirely (has_node_id_layer bm) v"
  shows "assign_ids bm =
           map (\<lambda>k. (verts bm ! k, own_id (has_node_id_layer bm) k (verts bm ! k)))
               [0 ..< length (verts bm)]"
proof -
  have np: "\<not> numeric_pattern (scan_vertices (has_node_id_layer bm) (verts bm))"
    using assms by (simp add: scan_vertices_def foldl_scan_pattern bex_enumerate_snd)
  have "vertex_entries (scan_vertices (has_node_id_layer bm) (verts bm)) =
          map (\<lambda>k. (verts bm ! k, own_id (has_node_id_layer bm) (0 + k) (verts bm ! k)))
              [0 ..< length (verts bm)]"
    unfolding scan_vertices_def foldl_scan_entries
    using enumerate_map_nth [of "\<lambda>i v. (v, own_id (has_node_id_layer bm) i v)" 0 "verts bm"]
    by (simp add: init_scan_def)
  then show ?thesis
    using np by (simp add: assign_ids_def Let_def)
qed


theorem invalid_id_skips_renumbering_witness:
  "(\<exists>v \<in> set (verts (tagged_mesh [Some ''n7'', Some ''nA'', Some [], Some ''N9''])).
      fails_entirely (has_node_id_layer (tagged_mesh [Some ''n7'', Some ''nA'', Some [], Some ''N9''])) v) \<and>
   map snd (assign_ids (tagged_mesh [Some ''n7'', Some ''nA'', Some [], Some ''N9''])) =
     [''n7'', ''nA'', ''n3'', ''n9'']"
proof -
  let ?bm = "tagged_mesh [Some ''n7'', Some ''nA'', Some [], Some ''N9'']"
  have h: "\<exists>v \<in> set (verts ?bm). fails_entirely (has_node_id_layer ?bm) v"
    by code_simp
  have m: "map snd (map (\<lambda>k. (verts ?bm ! k, own_id (has_node_id_layer ?bm) k (verts ?bm ! k)))
               [0 ..< length (verts ?bm)]) = [''n7'', ''nA'', ''n3'', ''n9'']"
    by code_simp
  show ?thesis
    using invalid_id_skips_renumbering [OF h] h m by simp
qed


text \<open>
  C5 as stated fails: the vertex whose stamped id \<open>abc\<close> fails the pattern keeps \<open>abc\<close>
  and does not receive \<open>n2\<close>.
\<close>

theorem invalid_id_kept_counterexample:
  "fails_entirely True (tagged_vert (Some ''abc'')) \<and>
   map snd (assign_ids (tagged_mesh [Some ''n7'', Some ''abc''])) = [''n7'', ''abc''] \<and>
   expected_id 1 = ''n2''"
  by code_simp


text \<open>
  A vertex with an empty stamped id does not stop the renumbering: with the other ids
  matching the pattern, the whole document is renumbered.
\<close>

theorem absent_id_renumbers_counterexample:
  "read_node_id True (tagged_vert (Some [])) = None \<and>
   map snd (assign_ids (tagged_mesh [Some ''n7'', Some []])) = [''n1'', ''n2'']"
  by code_simp

section \<open>Serialising a parsed document and parsing the text again\<close>

subsection \<open>Splitting into tokens and lines what was joined\<close>

lemma linebreak_is_space: "is_linebreak c \<Longrightarrow> is_space c"
  by (auto simp: is_linebreak_def linebreak_chars_def is_space_def whitespace_chars_def)

lemma space_char_is_space: "is_space (CHR '' '')"
  by (simp add: is_space_def whitespace_chars_def)

lemma space_char_not_linebreak: "\<not> is_linebreak (CHR '' '')"
  by (simp add: is_linebreak_def linebreak_chars_def)

lemma newline_is_linebreak: "is_linebreak (CHR 0x0A)" "CHR 0x0A \<noteq> CHR 0x0D"
  by (simp_all add: is_linebreak_def linebreak_chars_def)

lemma split_aux_token:
  assumes "\<forall>c \<in> set t. \<not> is_space c"
  shows "split_aux (t @ rest) cur = split_aux rest (cur @ t)"
  using assms by (induction t arbitrary: cur) simp_all

lemma split_aux_space:
  "cur \<noteq> [] \<Longrightarrow> split_aux (CHR '' '' # rest) cur = cur # split_aux rest []"
  by (simp add: space_char_is_space)

lemma split_aux_join:
  assumes "\<forall>t \<in> set (tok # toks). t \<noteq> [] \<and> (\<forall>c \<in> set t. \<not> is_space c)"
  shows "split_aux (join '' '' (tok # toks)) [] = tok # toks"
  using assms
proof (induction toks arbitrary: tok)
  case Nil
  then show ?case
    using split_aux_token [of tok "[]" "[]"] by simp
next
  case (Cons u us)
  have t: "\<forall>c \<in> set tok. \<not> is_space c" and ne: "tok \<noteq> []" using Cons.prems by simp_all
  have "split_aux (join '' '' (tok # u # us)) [] = split_aux (tok @ CHR '' '' # join '' '' (u # us)) []"
    by simp
  also have "\<dots> = split_aux (CHR '' '' # join '' '' (u # us)) tok"
    using split_aux_token [OF t, of "CHR '' '' # join '' '' (u # us)" "[]"] by simp
  also have "\<dots> = tok # split_aux (join '' '' (u # us)) []"
    by (rule split_aux_space [OF ne])
  also have "\<dots> = tok # u # us"
    using Cons.IH [of u] Cons.prems by simp
  finally show ?case .
qed

lemma split_join:
  assumes "\<forall>t \<in> set toks. t \<noteq> [] \<and> (\<forall>c \<in> set t. \<not> is_space c)"
  shows "split (join '' '' toks) = toks"
proof (cases toks)
  case Nil
  then show ?thesis by (simp add: split_def)
next
  case (Cons t ts)
  then show ?thesis using split_aux_join [of t ts] assms by (simp add: split_def)
qed

lemma join_tokens_ends:
  assumes "\<forall>t \<in> set (tok # toks). t \<noteq> [] \<and> (\<forall>c \<in> set t. \<not> is_space c)"
  shows "join '' '' (tok # toks) \<noteq> [] \<and> hd (join '' '' (tok # toks)) = hd tok \<and>
         \<not> is_space (last (join '' '' (tok # toks)))"
  using assms
proof (induction toks arbitrary: tok)
  case Nil
  then show ?case by (cases tok rule: rev_cases) auto
next
  case (Cons u us)
  have "join '' '' (u # us) \<noteq> [] \<and> \<not> is_space (last (join '' '' (u # us)))"
    using Cons.IH [of u] Cons.prems by simp
  then show ?case using Cons.prems by (cases tok) auto
qed

lemma strip_ends:
  assumes "s \<noteq> []" "\<not> is_space (hd s)" "\<not> is_space (last s)"
  shows "strip s = s"
proof -
  have a: "dropWhile is_space s = s" using assms(1,2) by (cases s) simp_all
  have b: "dropWhile is_space (rev s) = rev s"
    using assms(1,3) by (cases s rule: rev_cases) simp_all
  show ?thesis by (simp add: strip_def strip_with_def a b)
qed

lemma strip_join_tokens:
  assumes "\<forall>t \<in> set (tok # toks). t \<noteq> [] \<and> (\<forall>c \<in> set t. \<not> is_space c)"
  shows "strip (join '' '' (tok # toks)) = join '' '' (tok # toks)"
proof -
  have "\<not> is_space (hd tok)" using assms by (cases tok) auto
  then show ?thesis
    using join_tokens_ends [OF assms] by (intro strip_ends) simp_all
qed

lemma set_join: "set (join sep xs) \<subseteq> set sep \<union> (\<Union>x \<in> set xs. set x)"
  by (induction sep xs rule: join.induct) auto

lemma join_tokens_no_linebreak:
  assumes "\<forall>t \<in> set toks. \<forall>c \<in> set t. \<not> is_space c"
  shows "\<forall>c \<in> set (join '' '' toks). \<not> is_linebreak c"
proof
  fix c assume "c \<in> set (join '' '' toks)"
  then have "c = CHR '' '' \<or> (\<exists>t \<in> set toks. c \<in> set t)"
    using set_join [of "'' ''" toks] by auto
  then show "\<not> is_linebreak c"
    using assms linebreak_is_space space_char_not_linebreak by blast
qed

lemma splitlines_aux_line:
  assumes "\<forall>c \<in> set l. \<not> is_linebreak c"
  shows "splitlines_aux (l @ rest) cur = splitlines_aux rest (cur @ l)"
  using assms
proof (induction l arbitrary: cur)
  case Nil
  show ?case by simp
next
  case (Cons c l)
  have "\<not> is_linebreak c" using Cons.prems by simp
  moreover have "c \<noteq> CHR 0x0D"
    using Cons.prems by (auto simp: is_linebreak_def linebreak_chars_def)
  ultimately show ?case using Cons.IH Cons.prems by simp
qed

lemma splitlines_aux_join:
  assumes "\<forall>l \<in> set (x # xs). l \<noteq> [] \<and> (\<forall>c \<in> set l. \<not> is_linebreak c)"
  shows "splitlines_aux (join [CHR 0x0A] (x # xs)) [] = x # xs"
  using assms
proof (induction xs arbitrary: x)
  case Nil
  then show ?case using splitlines_aux_line [of x "[]" "[]"] by simp
next
  case (Cons y ys)
  have x: "\<forall>c \<in> set x. \<not> is_linebreak c" using Cons.prems by simp
  have "splitlines_aux (join [CHR 0x0A] (x # y # ys)) [] =
        splitlines_aux (x @ CHR 0x0A # join [CHR 0x0A] (y # ys)) []" by simp
  also have "\<dots> = splitlines_aux (CHR 0x0A # join [CHR 0x0A] (y # ys)) x"
    using splitlines_aux_line [OF x, of "CHR 0x0A # join [CHR 0x0A] (y # ys)" "[]"] by simp
  also have "\<dots> = x # splitlines_aux (join [CHR 0x0A] (y # ys)) []"
    by (simp add: newline_is_linebreak)
  also have "\<dots> = x # y # ys" using Cons.IH [of y] Cons.prems by simp
  finally show ?case .
qed

lemma splitlines_join:
  assumes "\<forall>l \<in> set ls. l \<noteq> [] \<and> (\<forall>c \<in> set l. \<not> is_linebreak c)"
  shows "splitlines (join [CHR 0x0A] ls) = ls"
proof (cases ls)
  case Nil
  then show ?thesis by (simp add: splitlines_def)
next
  case (Cons x xs)
  then show ?thesis using splitlines_aux_join [of x xs] assms by (simp add: splitlines_def)
qed

lemma split_aux_tokens:
  assumes "\<forall>c \<in> set cur. \<not> is_space c"
  shows "\<forall>t \<in> set (split_aux s cur). t \<noteq> [] \<and> (\<forall>c \<in> set t. \<not> is_space c)"
  using assms
proof (induction s arbitrary: cur)
  case Nil
  then show ?case by simp
next
  case (Cons c s)
  show ?case
  proof (cases "is_space c")
    case True
    have e: "\<forall>t \<in> set (split_aux s []). t \<noteq> [] \<and> (\<forall>c \<in> set t. \<not> is_space c)"
      by (rule Cons.IH) simp
    show ?thesis
    proof (cases "cur = []")
      case True
      with \<open>is_space c\<close> e show ?thesis by simp
    next
      case False
      with \<open>is_space c\<close> e Cons.prems show ?thesis by simp
    qed
  next
    case False
    have "\<forall>d \<in> set (cur @ [c]). \<not> is_space d" using False Cons.prems by simp
    from Cons.IH [OF this] False show ?thesis by simp
  qed
qed

lemma split_tokens: "\<forall>t \<in> set (split s). t \<noteq> [] \<and> (\<forall>c \<in> set t. \<not> is_space c)"
  using split_aux_tokens [of "[]" s] by (simp add: split_def)

subsection \<open>Lower-casing\<close>

lemma lower_upper_disjoint: "set lower_chars \<inter> set upper_chars = {}"
  by code_simp

lemma lower_chars_not_space: "\<forall>c \<in> set lower_chars. \<not> is_space c"
  by code_simp

lemma lower_char_cases:
  "(c \<notin> set upper_chars \<and> lower_char c = c) \<or> (c \<in> set upper_chars \<and> lower_char c \<in> set lower_chars)"
proof (cases "map_of (zip upper_chars lower_chars) c")
  case None
  have "length upper_chars = length lower_chars" by code_simp
  then have "c \<notin> set upper_chars"
    using None by (simp add: map_of_eq_None_iff) (metis map_fst_zip set_map)
  then show ?thesis using None by (simp add: lower_char_def)
next
  case (Some d)
  then have "(c, d) \<in> set (zip upper_chars lower_chars)" by (rule map_of_SomeD)
  then have "c \<in> set upper_chars" "d \<in> set lower_chars"
    by (auto dest: set_zip_leftD set_zip_rightD)
  then show ?thesis using Some by (simp add: lower_char_def)
qed

lemma lower_char_idem: "lower_char (lower_char c) = lower_char c"
proof -
  have "lower_char c \<notin> set upper_chars \<or> lower_char c = c"
    using lower_char_cases [of c] lower_upper_disjoint by auto
  then show ?thesis
    using lower_char_cases [of "lower_char c"] by auto
qed

lemma lower_idem: "lower (lower s) = lower s"
  by (simp add: lower_def lower_char_idem)

lemma lower_char_not_space: "\<not> is_space c \<Longrightarrow> \<not> is_space (lower_char c)"
  using lower_char_cases [of c] lower_chars_not_space by auto

lemma lower_not_space: "\<forall>c \<in> set s. \<not> is_space c \<Longrightarrow> \<forall>c \<in> set (lower s). \<not> is_space c"
  by (auto simp: lower_def lower_char_not_space)

lemma lower_nonempty: "s \<noteq> [] \<Longrightarrow> lower s \<noteq> []"
  by (simp add: lower_def)

lemma digit_not_upper: "is_dec_digit c \<Longrightarrow> c \<notin> set upper_chars"
  by (auto simp: is_dec_digit_def digit_chars_def upper_chars_def)

lemma lower_char_digit: "is_dec_digit c \<Longrightarrow> lower_char c = c"
  using lower_char_cases [of c] digit_not_upper by auto

lemma lower_str_nat: "lower (str_nat n) = str_nat n"
  using str_nat_digits [of n] by (simp add: lower_def list_all_iff lower_char_digit map_idI)

lemma lower_char_e: "lower_char (CHR ''e'') = CHR ''e''"
  by (simp add: lower_char_def upper_chars_def lower_chars_def)

lemma lower_expected_id: "lower (expected_id k) = expected_id k"
  using lower_str_nat [of "k + 1"] by (simp add: expected_id_def lower_def lower_char_n)

lemma vertex_line_ids_inv:
  assumes "ids_inv st" and "id_ok key"
  shows "ids_inv (vertex_line pf st key ps)"
proof -
  have "ids_inv (st\<lparr>vertices := vertices st @ [p],
                    node_index_to_id := node_index_to_id st @ [key],
                    node_id_to_index := (node_id_to_index st)(key \<mapsto> length (vertices st))\<rparr>)"
    if "node_id_to_index st key = None" for p
  proof -
    have "key \<notin> set (node_index_to_id st)"
      using that assms(1) by (auto simp: ids_inv_def scan_inv_def)
    then show ?thesis
      using assms by (auto simp: ids_inv_def scan_inv_def)
  qed
  then show ?thesis
    using assms(1) by (auto simp: vertex_line_def split: option.splits)
qed

lemma face_line_ids_inv: "ids_inv st \<Longrightarrow> ids_inv (face_line st ps)"
  by (simp add: ids_inv_def scan_inv_def face_line_frame)

lemma parse_line_ids_inv:
  assumes "ids_inv st"
  shows "ids_inv (parse_line pf st raw)"
proof (cases "split (strip raw)")
  case Nil
  then show ?thesis using assms by (simp add: parse_line_def Let_def)
next
  case (Cons p ps)
  have tok: "p \<noteq> [] \<and> (\<forall>c \<in> set p. \<not> is_space c)"
    using split_tokens [of "strip raw"] Cons by simp
  have ok: "id_ok (lower p)" if "startswith (lower p) (CHR ''n'')"
    using that tok lower_not_space [of p] by (simp add: id_ok_def lower_idem lower_nonempty)
  show ?thesis
    using assms ok
    by (simp add: parse_line_def Let_def Cons vertex_line_ids_inv face_line_ids_inv)
qed

lemma foldl_parse_line_ids_inv:
  "ids_inv st \<Longrightarrow> ids_inv (foldl (parse_line pf) st ls)"
  by (induction ls arbitrary: st) (simp_all add: parse_line_ids_inv)

lemma parse_vpg_text_ids_inv: "ids_inv (parse_vpg_text pf filetext)"
  unfolding parse_vpg_text_def parse_lines_def
  by (rule foldl_parse_line_ids_inv) (simp add: ids_inv_def scan_inv_def init_state_def)

subsection \<open>The mesh built from a parsed document\<close>

lemma distinct_nth_not_in_take:
  assumes "distinct ids" "n < length ids"
  shows "ids ! n \<notin> set (take n ids)"
proof
  assume "ids ! n \<in> set (take n ids)"
  then obtain j where j: "j < length (take n ids)" "take n ids ! j = ids ! n"
    by (auto simp: in_set_conv_nth)
  then have "j < n" "ids ! j = ids ! n" by simp_all
  then show False using assms by (simp add: distinct_conv_nth)
qed

lemma layer_prefix_fits: "utf8_length s \<le> n \<Longrightarrow> layer_prefix n s = Some s"
proof (induction s arbitrary: n)
  case Nil
  show ?case by simp
next
  case (Cons c cs)
  show ?case
  proof (cases "of_char c < (128 :: nat)")
    case True
    then have "utf8_length cs \<le> n - 1" and "n \<noteq> 0"
      using Cons.prems by (simp_all add: utf8_length_def)
    then show ?thesis using True Cons.IH [of "n - 1"] by simp
  next
    case False
    then have "utf8_length cs \<le> n - 2" and "n \<noteq> 0" and "n \<noteq> 1"
      using Cons.prems by (simp_all add: utf8_length_def)
    then show ?thesis using False Cons.IH [of "n - 2"] by simp
  qed
qed

lemma layer_value_fits: "utf8_length s \<le> 255 \<Longrightarrow> layer_value s = Some s"
  by (simp add: layer_value_def layer_prefix_fits)

lemma gen_vertices_ok:
  assumes "distinct ids"
    and "n + length ps \<le> length ids"
    and "dom tp = set (take n ids)"
    and "\<forall>p \<in> set ps. vector single (to_local (vector single p)) = p"
    and fits: "\<forall>s \<in> set ids. utf8_length s \<le> 255"
  shows "\<exists>tp'. gen_vertices single to_local ids (tp, vs) (enumerate n ps) =
           Inr (tp', vs @ map stamped_vert (zip ps (drop n ids)))"
  using assms(2,3,4)
proof (induction ps arbitrary: n tp vs)
  case Nil
  show ?case by simp
next
  case (Cons p ps)
  have n: "n < length ids" using Cons.prems(1) by simp
  have "ids ! n \<notin> dom tp"
    using distinct_nth_not_in_take [OF assms(1) n] Cons.prems(2) by simp
  then have none: "tp (ids ! n) = None" by auto
  have loc: "vector single (to_local (vector single p)) = p" using Cons.prems(3) by simp
  have lv: "layer_value (ids ! n) = Some (ids ! n)"
    using fits n by (simp add: layer_value_fits)
  have step: "gen_vertex single to_local ids (tp, vs) (n, p) =
      Inr (tp(ids ! n \<mapsto> p), vs @ [stamped_vert (p, ids ! n)])"
    using n by (simp add: gen_vertex_def Let_def none loc lv stamped_vert_def)
  have d: "dom (tp(ids ! n \<mapsto> p)) = set (take (Suc n) ids)"
    using Cons.prems(2) n by (simp add: take_Suc_conv_app_nth)
  have l: "Suc n + length ps \<le> length ids" using Cons.prems(1) by simp
  have rest: "\<forall>p \<in> set ps. vector single (to_local (vector single p)) = p"
    using Cons.prems(3) by simp
  from Cons.IH [OF l d rest, of "vs @ [stamped_vert (p, ids ! n)]"]
  obtain tp' where r: "gen_vertices single to_local ids (tp(ids ! n \<mapsto> p), vs @ [stamped_vert (p, ids ! n)])
        (enumerate (Suc n) ps) =
      Inr (tp', (vs @ [stamped_vert (p, ids ! n)]) @ map stamped_vert (zip ps (drop (Suc n) ids)))"
    by blast
  have dr: "drop n ids = ids ! n # drop (Suc n) ids"
    using n by (simp add: Cons_nth_drop_Suc)
  show ?case
    by (rule exI [of _ tp']) (simp add: step r dr)
qed

lemma vert_index_in_range: "0 \<le> a \<Longrightarrow> a < int n \<Longrightarrow> vert_index n a = Some (nat a)"
  by (simp add: vert_index_def)

subsection \<open>The ids written for the mesh of a parsed document\<close>

lemma id_ok_starts: "id_ok s \<Longrightarrow> CHR ''n'' # tl s = s"
  by (cases s) (simp_all add: id_ok_def startswith_def)

lemma read_node_id_stamped:
  assumes "id_ok s"
  shows "read_node_id True (stamped_vert (p, s)) = Some s"
  using assms by (simp add: read_node_id_def stamped_vert_def id_ok_def strip_id)

lemma own_id_stamped:
  assumes "id_ok s"
  shows "own_id True k (stamped_vert (p, s)) = s"
  using assms id_ok_starts [OF assms]
  by (simp add: own_id_def read_node_id_stamped id_ok_def)

lemma fails_entirely_stamped:
  assumes "id_ok s"
  shows "fails_entirely True (stamped_vert (p, s)) = id_pattern_fails s"
  using assms by (simp add: fails_entirely_def read_node_id_stamped id_ok_def)

lemma expected_id_shape: "expected_id i \<noteq> []" "CHR ''n'' # tl (expected_id i) = expected_id i"
  by (simp_all add: expected_id_def)

lemma scan_vertex_mismatch:
  "own_id hl i v \<noteq> expected_id i \<Longrightarrow> needs_renumber (scan_vertex hl sc (i, v))"
  by (auto simp: scan_vertex_def Let_def own_id_def id_pattern_fails_def expected_id_shape
      split: option.splits if_splits)

lemma scan_vertex_mono:
  "needs_renumber sc \<Longrightarrow> needs_renumber (scan_vertex hl sc iv)"
  by (simp add: scan_vertex_def Let_def split: option.splits)

lemma foldl_scan_mono:
  "needs_renumber sc \<Longrightarrow> needs_renumber (foldl (scan_vertex hl) sc ivs)"
  by (induction ivs arbitrary: sc) (simp_all add: scan_vertex_mono)

lemma foldl_scan_mismatch:
  assumes "\<exists>iv \<in> set ivs. own_id hl (fst iv) (snd iv) \<noteq> expected_id (fst iv)"
  shows "needs_renumber (foldl (scan_vertex hl) sc ivs)"
  using assms
proof (induction ivs arbitrary: sc)
  case Nil
  then show ?case by simp
next
  case (Cons iv ivs)
  obtain i v where iv: "iv = (i, v)" by (cases iv)
  show ?case
  proof (cases "own_id hl i v \<noteq> expected_id i")
    case True
    then show ?thesis
      by (simp add: iv foldl_scan_mono scan_vertex_mismatch)
  next
    case False
    then have "\<exists>iv \<in> set ivs. own_id hl (fst iv) (snd iv) \<noteq> expected_id (fst iv)"
      using Cons.prems by (simp add: iv)
    then show ?thesis using Cons.IH by simp
  qed
qed

lemma renumber_entry_parts:
  "snd (renumber_entry hl hi (i, (v, s))) = expected_id i"
  "co (fst (renumber_entry hl hi (i, (v, s)))) = co v"
  by (simp_all add: renumber_entry_def Let_def)

lemma stamped_nth:
  assumes "length vs = length ids" "k < length ids"
  shows "map stamped_vert (zip vs ids) ! k = stamped_vert (vs ! k, ids ! k)"
  using assms by simp

lemma scan_entries_stamped:
  assumes len: "length vs = length ids" and ok: "list_all id_ok ids"
  shows "vertex_entries (scan_vertices True (map stamped_vert (zip vs ids))) =
           map (\<lambda>k. (stamped_vert (vs ! k, ids ! k), ids ! k)) [0 ..< length ids]"
proof -
  let ?verts = "map stamped_vert (zip vs ids)"
  have l: "length ?verts = length ids" using len by simp
  have "vertex_entries (scan_vertices True ?verts) =
          map (\<lambda>k. (?verts ! k, own_id True (0 + k) (?verts ! k))) [0 ..< length ?verts]"
    unfolding scan_vertices_def foldl_scan_entries
    using enumerate_map_nth [of "\<lambda>i v. (v, own_id True i v)" 0 ?verts]
    by (simp add: init_scan_def)
  also have "\<dots> = map (\<lambda>k. (stamped_vert (vs ! k, ids ! k), ids ! k)) [0 ..< length ids]"
    unfolding l
  proof (rule map_cong [OF refl])
    fix k assume "k \<in> set [0 ..< length ids]"
    then have k: "k < length ids" by simp
    have "id_ok (ids ! k)" using ok k by (simp add: list_all_length)
    then show "(?verts ! k, own_id True (0 + k) (?verts ! k)) =
               (stamped_vert (vs ! k, ids ! k), ids ! k)"
      by (simp only: stamped_nth [OF len k] own_id_stamped)
  qed
  finally show ?thesis .
qed

lemma scan_pattern_stamped:
  assumes len: "length vs = length ids" and ok: "list_all id_ok ids"
  shows "numeric_pattern (scan_vertices True (map stamped_vert (zip vs ids))) =
           (\<not> list_ex id_pattern_fails ids)"
proof -
  have "(\<exists>v \<in> set (map stamped_vert (zip vs ids)). fails_entirely True v) =
        (\<exists>s \<in> set ids. id_pattern_fails s)"
  proof
    assume "\<exists>v \<in> set (map stamped_vert (zip vs ids)). fails_entirely True v"
    then obtain p s where ps: "(p, s) \<in> set (zip vs ids)" and f: "fails_entirely True (stamped_vert (p, s))"
      by auto
    have s: "s \<in> set ids" using ps by (rule set_zip_rightD)
    then have "id_ok s" using ok by (simp add: list_all_iff)
    then show "\<exists>s \<in> set ids. id_pattern_fails s"
      using f s by (auto simp: fails_entirely_stamped)
  next
    assume "\<exists>s \<in> set ids. id_pattern_fails s"
    then obtain k where k: "k < length ids" and f: "id_pattern_fails (ids ! k)"
      by (auto simp: in_set_conv_nth)
    have "id_ok (ids ! k)" using ok k by (simp add: list_all_length)
    then have "fails_entirely True (stamped_vert (vs ! k, ids ! k))"
      using f by (simp add: fails_entirely_stamped)
    moreover have "(vs ! k, ids ! k) \<in> set (zip vs ids)"
      using k len by (auto simp: set_zip)
    ultimately show "\<exists>v \<in> set (map stamped_vert (zip vs ids)). fails_entirely True v"
      by auto
  qed
  then have all: "(\<forall>v \<in> set (map stamped_vert (zip vs ids)). \<not> fails_entirely True v) =
                  (\<not> list_ex id_pattern_fails ids)"
    unfolding list_ex_iff by blast
  have "numeric_pattern (scan_vertices True (map stamped_vert (zip vs ids))) =
          (numeric_pattern (init_scan :: 'a id_scan) \<and>
           (\<forall>iv \<in> set (enumerate 0 (map stamped_vert (zip vs ids))). \<not> fails_entirely True (snd iv)))"
    unfolding scan_vertices_def by (rule foldl_scan_pattern)
  also have "\<dots> = (\<forall>v \<in> set (map stamped_vert (zip vs ids)). \<not> fails_entirely True v)"
  proof -
    have ni: "numeric_pattern (init_scan :: 'a id_scan)" by (simp add: init_scan_def)
    show ?thesis
      using ni ball_enumerate_snd [of 0 "map stamped_vert (zip vs ids)" "\<lambda>v. \<not> fails_entirely True v"]
      by blast
  qed
  also note all
  finally show ?thesis .
qed

lemma scan_renumber_stamped:
  assumes len: "length vs = length ids" and ok: "list_all id_ok ids" and nd: "\<not> dense_ids ids"
  shows "needs_renumber (scan_vertices True (map stamped_vert (zip vs ids)))"
proof -
  let ?verts = "map stamped_vert (zip vs ids)"
  have "\<exists>k < length ids. ids ! k \<noteq> expected_id k"
  proof (rule ccontr)
    assume "\<not> (\<exists>k < length ids. ids ! k \<noteq> expected_id k)"
    then have "ids = map expected_id [0 ..< length ids]"
      by (intro nth_equalityI) simp_all
    then show False using nd by (simp add: dense_ids_def)
  qed
  then obtain k where k: "k < length ids" and ne: "ids ! k \<noteq> expected_id k" by blast
  have "id_ok (ids ! k)" using ok k by (simp add: list_all_length)
  then have o: "own_id True k (?verts ! k) \<noteq> expected_id k"
    using ne k len by (simp add: own_id_stamped)
  have "(k, ?verts ! k) \<in> set (enumerate 0 ?verts)"
    using k len by (simp add: in_set_enumerate_eq)
  then have "\<exists>iv \<in> set (enumerate 0 ?verts). own_id True (fst iv) (snd iv) \<noteq> expected_id (fst iv)"
    using o by force
  then show ?thesis
    unfolding scan_vertices_def by (rule foldl_scan_mismatch)
qed

lemma assign_ids_stamped:
  assumes len: "length vs = length ids" and ok: "list_all id_ok ids"
  shows "map snd (assign_ids \<lparr>verts = map stamped_vert (zip vs ids), faces = fs,
                              has_node_id_layer = True, has_init_node_id_layer = True\<rparr>) =
           serialized_ids ids"
    and "map (\<lambda>e. co (fst e)) (assign_ids \<lparr>verts = map stamped_vert (zip vs ids), faces = fs,
                              has_node_id_layer = True, has_init_node_id_layer = True\<rparr>) = vs"
proof -
  let ?bm = "\<lparr>verts = map stamped_vert (zip vs ids), faces = fs,
              has_node_id_layer = True, has_init_node_id_layer = True\<rparr>"
  let ?sc = "scan_vertices True (map stamped_vert (zip vs ids))"
  let ?E = "map (\<lambda>k. (stamped_vert (vs ! k, ids ! k), ids ! k)) [0 ..< length ids]"
  have E: "vertex_entries ?sc = ?E" by (rule scan_entries_stamped [OF len ok])
  have snd_E: "map snd ?E = ids" by (simp add: comp_def map_nth)
  have co_E: "map (\<lambda>e. co (fst e)) ?E = vs"
    using len by (simp add: comp_def stamped_vert_def) (metis map_nth)
  have ren_snd: "map snd (map (renumber_entry True True) (enumerate 0 ?E)) =
                 map expected_id [0 ..< length ids]"
    by (rule nth_equalityI) (simp_all add: nth_enumerate_eq renumber_entry_parts)
  have ren_co: "map (\<lambda>e. co (fst e)) (map (renumber_entry True True) (enumerate 0 ?E)) = vs"
    using len
    by (intro nth_equalityI) (simp_all add: nth_enumerate_eq renumber_entry_parts stamped_vert_def)
  show "map snd (assign_ids ?bm) = serialized_ids ids"
  proof (cases "numeric_pattern ?sc \<and> needs_renumber ?sc")
    case True
    then have nf: "\<not> list_ex id_pattern_fails ids"
      using scan_pattern_stamped [OF len ok] by simp
    have "map snd (assign_ids ?bm) = map expected_id [0 ..< length ids]"
      using True by (simp add: assign_ids_def Let_def E ren_snd del: map_map)
    then show ?thesis
      using nf by (auto simp: serialized_ids_def dense_ids_def)
  next
    case False
    have a: "map snd (assign_ids ?bm) = ids"
      using False by (auto simp: assign_ids_def Let_def E snd_E simp del: map_map)
    have "list_ex id_pattern_fails ids \<or> dense_ids ids"
      using False scan_pattern_stamped [OF len ok] scan_renumber_stamped [OF len ok] by blast
    then show ?thesis using a by (simp add: serialized_ids_def)
  qed
  show "map (\<lambda>e. co (fst e)) (assign_ids ?bm) = vs"
  proof (cases "numeric_pattern ?sc \<and> needs_renumber ?sc")
    case True
    then show ?thesis by (simp add: assign_ids_def Let_def E ren_co del: map_map)
  next
    case False
    then show ?thesis by (auto simp: assign_ids_def Let_def E co_E simp del: map_map)
  qed
qed

subsection \<open>Reading the written lines back\<close>

lemma vertex_text_line_join:
  assumes "co (fst e) = (x, y, z)"
  shows "vertex_text_line fstr e = join '' '' [snd e, fstr x, fstr y, fstr z]"
  by (simp add: vertex_text_line_def assms)

lemma parse_vertex_text_line:
  assumes ok: "id_ok s" and rt: "position_roundtrips pf fstr (x, y, z)"
  shows "parse_line pf st (join '' '' [s, fstr x, fstr y, fstr z]) =
     (if node_id_to_index st s \<noteq> None then st
      else st\<lparr>vertices := vertices st @ [(x, y, z)],
              node_index_to_id := node_index_to_id st @ [s],
              node_id_to_index := (node_id_to_index st)(s \<mapsto> length (vertices st))\<rparr>)"
proof -
  let ?toks = "[s, fstr x, fstr y, fstr z]"
  let ?line = "join '' '' ?toks"
  have toks: "\<forall>t \<in> set (s # [fstr x, fstr y, fstr z]). t \<noteq> [] \<and> (\<forall>c \<in> set t. \<not> is_space c)"
    using ok rt by (simp add: id_ok_def position_roundtrips_def float_roundtrips_def list_all_iff)
  have strip: "strip ?line = ?line" by (rule strip_join_tokens [OF toks])
  have split: "split ?line = ?toks" using split_join [of ?toks] toks by simp
  have hd: "hd ?line = CHR ''n''"
    using join_tokens_ends [OF toks] ok by (cases s) (simp_all add: id_ok_def startswith_def)
  have ne: "?line \<noteq> []" using join_tokens_ends [OF toks] by simp
  have nc: "\<not> startswith ?line (CHR ''#'')"
    using hd ne by (cases ?line) (simp_all add: startswith_def)
  have key: "lower s = s" "startswith s (CHR ''n'')" using ok by (simp_all add: id_ok_def)
  have pf: "pf (fstr x) = Some x" "pf (fstr y) = Some y" "pf (fstr z) = Some z"
    using rt by (simp_all add: position_roundtrips_def float_roundtrips_def)
  show ?thesis
    using ne nc
    by (simp add: parse_line_def Let_def strip split key vertex_line_def pf del: join.simps)
qed

lemma foldl_parse_vertex_lines:
  assumes "scan_inv st"
    and "distinct (map snd es)"
    and "set (map snd es) \<inter> set (node_index_to_id st) = {}"
    and "\<forall>e \<in> set es. id_ok (snd e) \<and> position_roundtrips pf fstr (co (fst e))"
  shows "vertices (foldl (parse_line pf) st (map (vertex_text_line fstr) es)) =
           vertices st @ map (\<lambda>e. co (fst e)) es \<and>
         node_index_to_id (foldl (parse_line pf) st (map (vertex_text_line fstr) es)) =
           node_index_to_id st @ map snd es \<and>
         indices (foldl (parse_line pf) st (map (vertex_text_line fstr) es)) = indices st \<and>
         scan_inv (foldl (parse_line pf) st (map (vertex_text_line fstr) es))"
  using assms
proof (induction es arbitrary: st)
  case Nil
  then show ?case by simp
next
  case (Cons e es)
  obtain x y z where c: "co (fst e) = (x, y, z)" by (cases "co (fst e)") auto
  have ok: "id_ok (snd e)" and rt: "position_roundtrips pf fstr (x, y, z)"
    using Cons.prems(4) c by auto
  have fresh: "snd e \<notin> set (node_index_to_id st)" using Cons.prems(3) by auto
  then have none: "node_id_to_index st (snd e) = None"
    using Cons.prems(1) by (auto simp: scan_inv_def)
  let ?st' = "st\<lparr>vertices := vertices st @ [(x, y, z)],
                 node_index_to_id := node_index_to_id st @ [snd e],
                 node_id_to_index := (node_id_to_index st)(snd e \<mapsto> length (vertices st))\<rparr>"
  have step: "parse_line pf st (vertex_text_line fstr e) = ?st'"
    unfolding vertex_text_line_join [OF c] parse_vertex_text_line [OF ok rt]
    using none by simp
  have inv: "scan_inv ?st'" using Cons.prems(1) by (auto simp: scan_inv_def)
  have d: "distinct (map snd es)" using Cons.prems(2) by simp
  have disj: "set (map snd es) \<inter> set (node_index_to_id ?st') = {}"
    using Cons.prems(2,3) by auto
  have rest: "\<forall>e \<in> set es. id_ok (snd e) \<and> position_roundtrips pf fstr (co (fst e))"
    using Cons.prems(4) by simp
  show ?case
    using Cons.IH [OF inv d disj rest] by (simp add: step c)
qed

lemma digit_not_comma: "is_dec_digit c \<Longrightarrow> c \<noteq> CHR '',''"
  by (auto simp: is_dec_digit_def digit_chars_def)

lemma digit_not_sign: "is_dec_digit c \<Longrightarrow> c \<noteq> CHR ''-'' \<and> c \<noteq> CHR ''+''"
  by (auto simp: is_dec_digit_def digit_chars_def)

lemma normalize_token_str_nat: "normalize_token (str_nat m) = str_nat m"
proof -
  have nc: "\<forall>c \<in> set (str_nat m). \<not> c = CHR '',''"
    using str_nat_digits [of m] by (auto simp: list_all_iff digit_not_comma)
  show ?thesis
    by (simp add: normalize_token_def strip_comma_def strip_id [OF str_nat_no_space]
        strip_with_id [OF nc])
qed

lemma py_int_str_nat: "py_int (str_nat m) = Some (int m)"
proof -
  obtain c cs where s: "str_nat m = c # cs"
    using str_nat_nonempty [of m] by (cases "str_nat m") auto
  have "is_dec_digit c" using str_nat_digits [of m] by (simp add: s)
  then have sign: "c \<noteq> CHR ''-''" "c \<noteq> CHR ''+''" using digit_not_sign by auto
  have "py_nat (c # cs) = Some m" using py_nat_str_nat [of m] by (simp add: s)
  then show ?thesis
    using sign by (simp add: py_int_def strip_id [OF str_nat_no_space] s [symmetric]) (simp add: s)
qed

lemma tri_line_join:
  "tri_line k a b c = join '' '' [CHR ''e'' # str_nat k, str_nat (a + 1), str_nat (b + 1), str_nat (c + 1)]"
  by (simp add: tri_line_def)

lemma e_not_space: "\<not> is_space (CHR ''e'')"
  by (simp add: is_space_def whitespace_chars_def)

lemma parse_face_tokens:
  assumes toks: "\<forall>t \<in> set (key # toks). t \<noteq> [] \<and> (\<forall>c \<in> set t. \<not> is_space c)"
    and key: "lower key = key" "\<not> startswith key (CHR ''n'')" "startswith key (CHR ''e'')"
  shows "parse_line pf st (join '' '' (key # toks)) = face_line st (key # toks)"
proof -
  let ?line = "join '' '' (key # toks)"
  have strip: "strip ?line = ?line" by (rule strip_join_tokens [OF toks])
  have split: "split ?line = key # toks" using split_join [of "key # toks"] toks by simp
  have ne: "?line \<noteq> []" using join_tokens_ends [OF toks] by simp
  have "hd ?line = hd key" using join_tokens_ends [OF toks] by simp
  moreover have "hd key = CHR ''e''" using key(3) by (cases key) (simp_all add: startswith_def)
  ultimately have nc: "\<not> startswith ?line (CHR ''#'')"
    using ne by (cases ?line) (simp_all add: startswith_def)
  show ?thesis
    using ne nc by (simp add: parse_line_def Let_def strip split key del: join.simps)
qed

lemma face_line_tokens:
  assumes "py_int (normalize_token ta) = Some (int a + 1)"
    and "py_int (normalize_token tb) = Some (int b + 1)"
    and "py_int (normalize_token tc) = Some (int c + 1)"
  shows "face_line st [key, ta, tb, tc] =
     (if a < length (vertices st) \<and> b < length (vertices st) \<and> c < length (vertices st)
      then st\<lparr>indices := indices st @ [(int a, int b, int c)]\<rparr> else st)"
  by (simp add: face_line_def Let_def assms)

lemma parse_tri_line:
  "parse_line pf st (tri_line k a b c) =
     (if a < length (vertices st) \<and> b < length (vertices st) \<and> c < length (vertices st)
      then st\<lparr>indices := indices st @ [(int a, int b, int c)]\<rparr> else st)"
proof -
  let ?key = "CHR ''e'' # str_nat k"
  let ?toks = "[str_nat (a + 1), str_nat (b + 1), str_nat (c + 1)]"
  have toks: "\<forall>t \<in> set (?key # ?toks). t \<noteq> [] \<and> (\<forall>c \<in> set t. \<not> is_space c)"
    using str_nat_no_space str_nat_nonempty e_not_space by auto
  have key: "lower ?key = ?key"
    using lower_str_nat [of k] by (simp add: lower_def lower_char_e)
  have sw: "\<not> startswith ?key (CHR ''n'')" "startswith ?key (CHR ''e'')"
    by (simp_all add: startswith_def)
  have pl: "parse_line pf st (join '' '' (?key # ?toks)) = face_line st (?key # ?toks)"
    by (rule parse_face_tokens [OF toks key sw])
  have i: "py_int (normalize_token (str_nat (m + 1))) = Some (int m + 1)" for m
    by (simp add: normalize_token_str_nat py_int_str_nat)
  have fl: "face_line st (?key # ?toks) =
     (if a < length (vertices st) \<and> b < length (vertices st) \<and> c < length (vertices st)
      then st\<lparr>indices := indices st @ [(int a, int b, int c)]\<rparr> else st)"
    by (rule face_line_tokens [OF i i i])
  show ?thesis
    unfolding tri_line_join pl fl ..
qed

lemma face_text_lines_tri:
  "length f = 3 \<Longrightarrow>
   face_text_lines k (f # fs) = tri_line k (f ! 0) (f ! 1) (f ! 2) # face_text_lines (k + 1) fs"
  by simp

lemma face_of_in_range:
  assumes "tri_in_range n tri"
  shows "length (face_of tri) = 3" and "face_of tri ! 0 < n \<and> face_of tri ! 1 < n \<and> face_of tri ! 2 < n"
    and "(int (face_of tri ! 0), int (face_of tri ! 1), int (face_of tri ! 2)) = tri"
proof -
  obtain a b c where t: "tri = (a, b, c)" by (cases tri) auto
  have f: "face_of tri = [nat a, nat b, nat c]" by (simp add: face_of_def t)
  have r: "0 \<le> a" "a < int n" "0 \<le> b" "b < int n" "0 \<le> c" "c < int n"
    using assms by (simp_all add: tri_in_range_def t)
  have n0: "[nat a, nat b, nat c] ! 0 = nat a" by simp
  have n1: "[nat a, nat b, nat c] ! 1 = nat b" by simp
  have n2: "[nat a, nat b, nat c] ! 2 = nat c" by (simp add: numeral_2_eq_2)
  show "length (face_of tri) = 3" by (simp add: f)
  show "face_of tri ! 0 < n \<and> face_of tri ! 1 < n \<and> face_of tri ! 2 < n"
    unfolding f n0 n1 n2 using r by linarith
  have "(int (face_of tri ! 0), int (face_of tri ! 1), int (face_of tri ! 2)) = (a, b, c)"
    unfolding f n0 n1 n2 using r by simp
  then show "(int (face_of tri ! 0), int (face_of tri ! 1), int (face_of tri ! 2)) = tri"
    by (simp only: t [symmetric])
qed

lemma foldl_parse_face_lines:
  assumes "\<forall>tri \<in> set tris. tri_in_range (length (vertices st)) tri"
  shows "foldl (parse_line pf) st (face_text_lines k (map face_of tris)) =
           st\<lparr>indices := indices st @ tris\<rparr>"
  using assms
proof (induction tris arbitrary: st k)
  case Nil
  show ?case by simp
next
  case (Cons tri tris)
  have r: "tri_in_range (length (vertices st)) tri" using Cons.prems by simp
  note f = face_of_in_range [OF r]
  have step: "parse_line pf st (tri_line k (face_of tri ! 0) (face_of tri ! 1) (face_of tri ! 2)) =
              st\<lparr>indices := indices st @ [tri]\<rparr>"
    unfolding parse_tri_line using f(2,3) by simp
  have rest: "\<forall>t \<in> set tris. tri_in_range (length (vertices (st\<lparr>indices := indices st @ [tri]\<rparr>))) t"
    using Cons.prems by simp
  have "foldl (parse_line pf) st (face_text_lines k (map face_of (tri # tris))) =
        foldl (parse_line pf) (st\<lparr>indices := indices st @ [tri]\<rparr>)
          (face_text_lines (k + 1) (map face_of tris))"
    by (simp only: list.map face_text_lines_tri [OF f(1)] foldl_Cons step)
  also have "\<dots> = (st\<lparr>indices := indices st @ [tri]\<rparr>)
                      \<lparr>indices := indices (st\<lparr>indices := indices st @ [tri]\<rparr>) @ tris\<rparr>"
    by (rule Cons.IH [OF rest])
  also have "\<dots> = st\<lparr>indices := indices st @ tri # tris\<rparr>" by simp
  finally show ?case .
qed

lemma tri_line_shape:
  "tri_line k a b c \<noteq> [] \<and> (\<forall>ch \<in> set (tri_line k a b c). \<not> is_linebreak ch)"
proof -
  have "\<forall>t \<in> set [CHR ''e'' # str_nat k, str_nat (a + 1), str_nat (b + 1), str_nat (c + 1)].
          \<forall>ch \<in> set t. \<not> is_space ch"
    using str_nat_no_space e_not_space by auto
  then have "\<forall>ch \<in> set (tri_line k a b c). \<not> is_linebreak ch"
    unfolding tri_line_join by (rule join_tokens_no_linebreak)
  then show ?thesis by (simp add: tri_line_def)
qed

lemma face_text_lines_shape:
  assumes "\<forall>f \<in> set fs. length f = 3"
  shows "\<forall>l \<in> set (face_text_lines k fs). l \<noteq> [] \<and> (\<forall>ch \<in> set l. \<not> is_linebreak ch)"
  using assms
proof (induction fs arbitrary: k)
  case Nil
  show ?case by simp
next
  case (Cons f fs)
  then show ?case using tri_line_shape by simp
qed

lemma vertex_text_line_shape:
  assumes "id_ok (snd e)" and "position_roundtrips pf fstr (co (fst e))"
  shows "vertex_text_line fstr e \<noteq> [] \<and> (\<forall>ch \<in> set (vertex_text_line fstr e). \<not> is_linebreak ch)"
proof -
  obtain x y z where c: "co (fst e) = (x, y, z)" by (cases "co (fst e)") auto
  have toks: "\<forall>t \<in> set [snd e, fstr x, fstr y, fstr z]. \<forall>ch \<in> set t. \<not> is_space ch"
    using assms c by (simp add: id_ok_def position_roundtrips_def float_roundtrips_def list_all_iff)
  have "\<forall>ch \<in> set (vertex_text_line fstr e). \<not> is_linebreak ch"
    unfolding vertex_text_line_join [OF c] using toks by (rule join_tokens_no_linebreak)
  moreover have "vertex_text_line fstr e \<noteq> []"
    using assms(1) by (simp add: vertex_text_line_def c id_ok_def)
  ultimately show ?thesis by simp
qed

subsection \<open>The faces the importer can build\<close>

lemma gen_face_succeeds:
  assumes "tri_in_range n tri"
    and "distinct (face_of tri)"
    and "\<forall>f \<in> set fs. set f \<noteq> set (face_of tri)"
  shows "gen_face n fs tri = Inr (fs @ [face_of tri])"
proof -
  obtain a b c where t: "tri = (a, b, c)" by (cases tri) auto
  have v: "vert_index n a = Some (nat a)" "vert_index n b = Some (nat b)" "vert_index n c = Some (nat c)"
    using assms(1) by (simp_all add: t tri_in_range_def vert_index_in_range)
  have f: "face_of tri = [nat a, nat b, nat c]" by (simp add: face_of_def t)
  have d: "distinct [nat a, nat b, nat c]" using assms(2) by (simp only: f)
  have s: "\<not> (\<exists>g \<in> set fs. set g = {nat a, nat b, nat c})"
    using assms(3) by (auto simp: f)
  show ?thesis
    using d s by (simp add: gen_face_def t v face_of_def)
qed

lemma gen_faces_succeeds:
  assumes "\<forall>tri \<in> set tris. tri_in_range n tri"
    and "buildable tris"
    and "\<forall>f \<in> set fs. \<forall>tri \<in> set tris. set f \<noteq> set (face_of tri)"
  shows "gen_faces n fs tris = Inr (fs @ map face_of tris)"
  using assms
proof (induction tris arbitrary: fs)
  case Nil
  show ?case by simp
next
  case (Cons tri tris)
  have r: "tri_in_range n tri" using Cons.prems(1) by simp
  have d: "distinct (face_of tri)" using Cons.prems(2) by (simp add: buildable_def)
  have fresh: "\<forall>f \<in> set fs. set f \<noteq> set (face_of tri)" using Cons.prems(3) by simp
  have step: "gen_face n fs tri = Inr (fs @ [face_of tri])"
    by (rule gen_face_succeeds [OF r d fresh])
  have r': "\<forall>tri \<in> set tris. tri_in_range n tri" using Cons.prems(1) by simp
  have b': "buildable tris" using Cons.prems(2) by (simp add: buildable_def)
  have new: "\<forall>t \<in> set tris. set (face_of tri) \<noteq> set (face_of t)"
    using Cons.prems(2) by (auto simp: buildable_def)
  have fresh': "\<forall>f \<in> set (fs @ [face_of tri]). \<forall>t \<in> set tris. set f \<noteq> set (face_of t)"
    using Cons.prems(3) new by auto
  show ?case
    using Cons.IH [OF r' b' fresh'] by (simp add: step)
qed

lemma generate_mesh_succeeds:
  assumes "distinct ids" "length vs = length ids"
    and "\<forall>p \<in> set vs. vector single (to_local (vector single p)) = p"
    and "\<forall>s \<in> set ids. utf8_length s \<le> 255"
    and "\<forall>tri \<in> set tris. tri_in_range (length vs) tri"
    and "buildable tris"
  shows "generate_mesh single to_local vs tris ids =
           Inr \<lparr>verts = map stamped_vert (zip vs ids), faces = map face_of tris,
                has_node_id_layer = True, has_init_node_id_layer = True\<rparr>"
proof -
  obtain tp' where v: "gen_vertices single to_local ids (Map.empty, []) (enumerate 0 vs) =
      Inr (tp', [] @ map stamped_vert (zip vs (drop 0 ids)))"
    using gen_vertices_ok [OF assms(1) _ _ _ assms(4), of 0 vs Map.empty single to_local "[]"] assms(2,3)
    by auto
  have len: "length (map stamped_vert (zip vs ids)) = length vs"
    using assms(2) by simp
  have f: "gen_faces (length vs) [] tris = Inr ([] @ map face_of tris)"
    by (rule gen_faces_succeeds [OF assms(5,6)]) simp
  show ?thesis
    using v f len by (simp add: generate_mesh_def)
qed

subsection \<open>The ids the serialiser writes\<close>

lemma id_ok_expected_id: "id_ok (expected_id k)"
  using expected_id_no_space [of k]
  by (simp add: id_ok_def lower_expected_id) (simp add: expected_id_def startswith_def)

lemma distinct_expected_ids: "distinct (map expected_id [0 ..< n])"
  by (auto simp: distinct_map inj_on_def dest: expected_id_inj)

lemma serialized_ids_props:
  assumes "distinct ids" and "list_all id_ok ids"
  shows "distinct (serialized_ids ids)"
    and "list_all id_ok (serialized_ids ids)"
    and "length (serialized_ids ids) = length ids"
  using assms
  by (simp_all add: serialized_ids_def distinct_expected_ids list_all_iff id_ok_expected_id)

subsection \<open>Reading the text of a parsed document back\<close>

lemma parse_written_lines:
  assumes es_ids: "map snd es = ids'"
    and es_co: "map (\<lambda>e. co (fst e)) es = vs"
    and d: "distinct ids'"
    and ok: "list_all id_ok ids'"
    and rt: "\<forall>p \<in> set vs. position_roundtrips pf fstr p"
    and rng: "\<forall>tri \<in> set tris. tri_in_range (length vs) tri"
  shows "vertices (parse_vpg_text pf (join [CHR 0x0A]
            (map (vertex_text_line fstr) es @ face_text_lines 1 (map face_of tris)))) = vs \<and>
         indices (parse_vpg_text pf (join [CHR 0x0A]
            (map (vertex_text_line fstr) es @ face_text_lines 1 (map face_of tris)))) = tris \<and>
         node_index_to_id (parse_vpg_text pf (join [CHR 0x0A]
            (map (vertex_text_line fstr) es @ face_text_lines 1 (map face_of tris)))) = ids'"
proof -
  let ?VL = "map (vertex_text_line fstr) es"
  let ?FL = "face_text_lines 1 (map face_of tris)"
  have e_ok: "\<forall>e \<in> set es. id_ok (snd e) \<and> position_roundtrips pf fstr (co (fst e))"
  proof
    fix e assume e: "e \<in> set es"
    have "snd e \<in> set ids'" using e es_ids by force
    then have 1: "id_ok (snd e)" using ok by (simp add: list_all_iff)
    have "co (fst e) \<in> set vs" using e es_co by force
    then have 2: "position_roundtrips pf fstr (co (fst e))" using rt by simp
    show "id_ok (snd e) \<and> position_roundtrips pf fstr (co (fst e))" using 1 2 by simp
  qed
  have vshape: "\<forall>l \<in> set ?VL. l \<noteq> [] \<and> (\<forall>ch \<in> set l. \<not> is_linebreak ch)"
    using e_ok vertex_text_line_shape [of _ pf fstr] by auto
  have f3: "\<forall>f \<in> set (map face_of tris). length f = 3"
    using rng face_of_in_range(1) by auto
  have fshape: "\<forall>l \<in> set ?FL. l \<noteq> [] \<and> (\<forall>ch \<in> set l. \<not> is_linebreak ch)"
    by (rule face_text_lines_shape [OF f3])
  have shape: "\<forall>l \<in> set (?VL @ ?FL). l \<noteq> [] \<and> (\<forall>ch \<in> set l. \<not> is_linebreak ch)"
    using vshape fshape by auto
  have sl: "splitlines (join [CHR 0x0A] (?VL @ ?FL)) = ?VL @ ?FL"
    by (rule splitlines_join [OF shape])
  have i0: "scan_inv (init_state :: 'a parse_state)"
    by (simp add: scan_inv_def init_state_def)
  have d0: "distinct (map snd es)" using d es_ids by simp
  have dj: "set (map snd es) \<inter> set (node_index_to_id (init_state :: 'a parse_state)) = {}"
    by (simp add: init_state_def)
  note vl = foldl_parse_vertex_lines [OF i0 d0 dj e_ok]
  let ?st1 = "foldl (parse_line pf) init_state ?VL"
  have v1: "vertices ?st1 = vs" using vl es_co by (simp add: init_state_def)
  have n1: "node_index_to_id ?st1 = ids'" using vl es_ids by (simp add: init_state_def)
  have x1: "indices ?st1 = []" using vl by (simp add: init_state_def)
  have rng1: "\<forall>tri \<in> set tris. tri_in_range (length (vertices ?st1)) tri"
    using rng by (simp only: v1)
  have fl: "foldl (parse_line pf) ?st1 ?FL = ?st1\<lparr>indices := indices ?st1 @ tris\<rparr>"
    by (rule foldl_parse_face_lines [OF rng1])
  have p: "parse_vpg_text pf (join [CHR 0x0A] (?VL @ ?FL)) = ?st1\<lparr>indices := indices ?st1 @ tris\<rparr>"
    by (simp only: parse_vpg_text_def parse_lines_def sl foldl_append fl)
  show ?thesis
    unfolding p using v1 n1 x1 by simp
qed

text \<open>
  C1 (amended). Take a document produced by \<open>parse_vpg_text\<close> whose positions are read
  back from what is printed for them and are left as they are by the transform of the
  object and by single-precision storage, whose ids fit the string layer, and whose faces
  the importer can build. Then building the mesh and serialising it returns a text, and
  parsing that text gives the same positions and the same faces. The ids are the same
  when some id is not \<open>n\<close> followed by digits or when the ids are \<open>n1\<close>, \<open>n2\<close>, \<dots> in order;
  otherwise the ids of the new document are \<open>n1\<close>, \<open>n2\<close>, \<dots> in order.
\<close>

theorem roundtrip_of_parsed_document:
  fixes pf :: "string \<Rightarrow> 'f option"
  assumes rt: "\<forall>p \<in> set (vertices (parse_vpg_text pf filetext)).
             position_roundtrips pf fstr p \<and> vector single (to_local (vector single p)) = p"
    and fits: "\<forall>s \<in> set (node_index_to_id (parse_vpg_text pf filetext)). utf8_length s \<le> 255"
    and b: "buildable (indices (parse_vpg_text pf filetext))"
  shows "\<exists>t. document_to_text fstr single to_local (parse_vpg_text pf filetext) = Inr t \<and>
             vertices (parse_vpg_text pf t) = vertices (parse_vpg_text pf filetext) \<and>
             indices (parse_vpg_text pf t) = indices (parse_vpg_text pf filetext) \<and>
             node_index_to_id (parse_vpg_text pf t) =
               serialized_ids (node_index_to_id (parse_vpg_text pf filetext))"
proof -
  define st where "st = parse_vpg_text pf filetext"
  have inv: "ids_inv st" unfolding st_def by (rule parse_vpg_text_ids_inv)
  have d: "distinct (node_index_to_id st)" and ok: "list_all id_ok (node_index_to_id st)"
    and len: "length (vertices st) = length (node_index_to_id st)"
    using inv by (simp_all add: ids_inv_def scan_inv_def)
  have rng: "\<forall>tri \<in> set (indices st). tri_in_range (length (vertices st)) tri"
    unfolding st_def by (rule parse_vpg_text_in_range)
  have loc: "\<forall>p \<in> set (vertices st). vector single (to_local (vector single p)) = p"
    using rt by (simp add: st_def)
  have rt': "\<forall>p \<in> set (vertices st). position_roundtrips pf fstr p"
    using rt by (simp add: st_def)
  have fits': "\<forall>s \<in> set (node_index_to_id st). utf8_length s \<le> 255"
    using fits by (simp add: st_def)
  have b': "buildable (indices st)" using b by (simp add: st_def)
  let ?bm = "\<lparr>verts = map stamped_vert (zip (vertices st) (node_index_to_id st)),
              faces = map face_of (indices st),
              has_node_id_layer = True, has_init_node_id_layer = True\<rparr>"
  have gm: "generate_mesh single to_local (vertices st) (indices st) (node_index_to_id st) = Inr ?bm"
    by (rule generate_mesh_succeeds [OF d len loc fits' rng b'])
  let ?t = "join [CHR 0x0A] (map (vertex_text_line fstr) (assign_ids ?bm) @
                              face_text_lines 1 (map face_of (indices st)))"
  have dt: "document_to_text fstr single to_local st = Inr ?t"
    by (simp add: document_to_text_def gm mesh_to_vpg_text_def Let_def geometry_text_lines_def)
  note a = assign_ids_stamped [OF len ok, of "map face_of (indices st)"]
  note s = serialized_ids_props [OF d ok]
  have "vertices (parse_vpg_text pf ?t) = vertices st \<and>
        indices (parse_vpg_text pf ?t) = indices st \<and>
        node_index_to_id (parse_vpg_text pf ?t) = serialized_ids (node_index_to_id st)"
    by (rule parse_written_lines [OF a(1) a(2) s(1) s(2) rt' rng])
  then show ?thesis
    using dt unfolding st_def by blast
qed


theorem roundtrip_of_parsed_document_witness:
  "list_all (\<lambda>p. position_roundtrips plain_float plain_str p \<and> vector id (id (vector id p)) = p)
     (vertices (parse_vpg_text plain_float ''n7 0 0 0\<newline>n3 1 0 0\<newline>n9 1 1 0\<newline>e1 1 2 3'')) \<and>
   list_all (\<lambda>s. utf8_length s \<le> 255)
     (node_index_to_id (parse_vpg_text plain_float ''n7 0 0 0\<newline>n3 1 0 0\<newline>n9 1 1 0\<newline>e1 1 2 3'')) \<and>
   buildable (indices (parse_vpg_text plain_float ''n7 0 0 0\<newline>n3 1 0 0\<newline>n9 1 1 0\<newline>e1 1 2 3'')) \<and>
   document_to_text plain_str id id
     (parse_vpg_text plain_float ''n7 0 0 0\<newline>n3 1 0 0\<newline>n9 1 1 0\<newline>e1 1 2 3'') =
     Inr ''n1 0.0 0.0 0.0\<newline>n2 1.0 0.0 0.0\<newline>n3 1.0 1.0 0.0\<newline>e1 1 2 3'' \<and>
   vertices (parse_vpg_text plain_float ''n1 0.0 0.0 0.0\<newline>n2 1.0 0.0 0.0\<newline>n3 1.0 1.0 0.0\<newline>e1 1 2 3'') =
     vertices (parse_vpg_text plain_float ''n7 0 0 0\<newline>n3 1 0 0\<newline>n9 1 1 0\<newline>e1 1 2 3'') \<and>
   indices (parse_vpg_text plain_float ''n1 0.0 0.0 0.0\<newline>n2 1.0 0.0 0.0\<newline>n3 1.0 1.0 0.0\<newline>e1 1 2 3'') =
     indices (parse_vpg_text plain_float ''n7 0 0 0\<newline>n3 1 0 0\<newline>n9 1 1 0\<newline>e1 1 2 3'') \<and>
   node_index_to_id (parse_vpg_text plain_float ''n1 0.0 0.0 0.0\<newline>n2 1.0 0.0 0.0\<newline>n3 1.0 1.0 0.0\<newline>e1 1 2 3'') =
     serialized_ids (node_index_to_id (parse_vpg_text plain_float ''n7 0 0 0\<newline>n3 1 0 0\<newline>n9 1 1 0\<newline>e1 1 2 3'')) \<and>
   serialized_ids (node_index_to_id (parse_vpg_text plain_float ''n7 0 0 0\<newline>n3 1 0 0\<newline>n9 1 1 0\<newline>e1 1 2 3'')) =
     [''n1'', ''n2'', ''n3'']"
proof -
  let ?T = "''n7 0 0 0\<newline>n3 1 0 0\<newline>n9 1 1 0\<newline>e1 1 2 3''"
  let ?T' = "''n1 0.0 0.0 0.0\<newline>n2 1.0 0.0 0.0\<newline>n3 1.0 1.0 0.0\<newline>e1 1 2 3''"
  have h1: "list_all (\<lambda>p. position_roundtrips plain_float plain_str p \<and> vector id (id (vector id p)) = p)
     (vertices (parse_vpg_text plain_float ?T))"
    by code_simp
  have h2: "list_all (\<lambda>s. utf8_length s \<le> 255) (node_index_to_id (parse_vpg_text plain_float ?T))"
    by code_simp
  have h3: "buildable (indices (parse_vpg_text plain_float ?T))"
    by code_simp
  have dt: "document_to_text plain_str id id (parse_vpg_text plain_float ?T) = Inr ?T'"
    by code_simp
  have ids: "serialized_ids (node_index_to_id (parse_vpg_text plain_float ?T)) = [''n1'', ''n2'', ''n3'']"
    by code_simp
  have a1: "\<forall>p \<in> set (vertices (parse_vpg_text plain_float ?T)).
              position_roundtrips plain_float plain_str p \<and> vector id (id (vector id p)) = p"
    using h1 by (simp only: list_all_iff)
  have a2: "\<forall>s \<in> set (node_index_to_id (parse_vpg_text plain_float ?T)). utf8_length s \<le> 255"
    using h2 by (simp only: list_all_iff)
  from roundtrip_of_parsed_document [OF a1 a2 h3]
  obtain t where t: "document_to_text plain_str id id (parse_vpg_text plain_float ?T) = Inr t"
    and r: "vertices (parse_vpg_text plain_float t) = vertices (parse_vpg_text plain_float ?T)"
      "indices (parse_vpg_text plain_float t) = indices (parse_vpg_text plain_float ?T)"
      "node_index_to_id (parse_vpg_text plain_float t) =
         serialized_ids (node_index_to_id (parse_vpg_text plain_float ?T))"
    by blast
  have e: "t = ?T'" using t dt by simp
  show ?thesis
    using h1 h2 h3 dt ids r unfolding e by blast
qed

text \<open>
  C1 as stated fails for the ids: the document parsed from \<open>n5 0 0 0\<close> has the id \<open>n5\<close>,
  it is serialised as \<open>n1 0.0 0.0 0.0\<close>, and the document parsed from that has the id \<open>n1\<close>.
\<close>

theorem roundtrip_renumbers_counterexample:
  "node_index_to_id (parse_vpg_text plain_float ''n5 0 0 0'') = [''n5''] \<and>
   document_to_text plain_str id id (parse_vpg_text plain_float ''n5 0 0 0'') = Inr ''n1 0.0 0.0 0.0'' \<and>
   node_index_to_id (parse_vpg_text plain_float ''n1 0.0 0.0 0.0'') = [''n1'']"
  by code_simp

section \<open>Properties of the watcher\<close>

text \<open>
  C10. For a mesh linked to a VPG path: when the text serialised from the mesh and merged
  into the base text equals the text the mesh caches (or, when it caches none, the
  content of the internal text), the sync returns \<open>False\<close> and changes neither the cached
  text of any mesh, nor any internal text, nor the scene with its map of previous texts.
\<close>

theorem sync_unchanged_is_noop:
  assumes "obj_data obj = Some mname"
    and "meshes w mname = Some mesh"
    and "vpg_file_path mesh = Some vpg_path"
    and "vpg_path \<noteq> []"
    and "Some (merged_text basename fstr w obj mesh vpg_path) = cached_or_buffer basename w mesh vpg_path"
  shows "fst (sync_object_text basename unnamed fstr w obj) = False \<and>
         texts (snd (sync_object_text basename unnamed fstr w obj)) = texts w \<and>
         scene (snd (sync_object_text basename unnamed fstr w obj)) = scene w \<and>
         (\<forall>m. map_option mesh_data_prop (meshes (snd (sync_object_text basename unnamed fstr w obj)) m) =
              map_option mesh_data_prop (meshes w m))"
proof -
  let ?stored = "mesh_data_prop mesh"
  let ?base = "case ?stored of Some (PStr s) \<Rightarrow> Some s | _ \<Rightarrow> read_int_file basename w vpg_path"
  let ?r = "mesh_to_vpg_text fstr (geometry mesh) (obj_in_edit_mode obj) ?base"
  have old: "(case ?stored of Some (PStr s) \<Rightarrow> Some s | _ \<Rightarrow> ?base) = ?base"
    by (simp split: option.splits idprop.splits)
  have eq: "Some (fst ?r) = ?base"
    using assms(5) by (simp add: merged_text_def cached_or_buffer_def)
  have res: "sync_object_text basename unnamed fstr w obj =
      (False, w\<lparr>meshes := (meshes w)(mname \<mapsto> mesh\<lparr>geometry := snd ?r\<rparr>)\<rparr>)"
    using assms(4) eq
    by (simp add: sync_object_text_def assms(1,2,3) Let_def old)
  show ?thesis
    by (simp add: res assms(2))
qed

theorem sync_unchanged_is_noop_witness:
  "obj_data linked_object = Some ''a'' \<and>
   meshes synced_world ''a'' = Some linked_mesh \<and>
   vpg_file_path linked_mesh = Some ''a.vpg'' \<and>
   merged_text posix_basename plain_str synced_world linked_object linked_mesh ''a.vpg'' = ''# header\<newline>\<newline>n1 0.0 0.0 0.0'' \<and>
   cached_or_buffer posix_basename synced_world linked_mesh ''a.vpg'' = Some ''# header\<newline>\<newline>n1 0.0 0.0 0.0'' \<and>
   fst (sync_object_text posix_basename plain_unnamed plain_str synced_world linked_object) = False \<and>
   texts (snd (sync_object_text posix_basename plain_unnamed plain_str synced_world linked_object)) = texts synced_world \<and>
   scene (snd (sync_object_text posix_basename plain_unnamed plain_str synced_world linked_object)) = scene synced_world"
proof -
  have h1: "obj_data linked_object = Some ''a''" by (simp add: linked_object_def)
  have h2: "meshes synced_world ''a'' = Some linked_mesh" by (simp add: synced_world_def)
  have h3: "vpg_file_path linked_mesh = Some ''a.vpg''" by (simp add: linked_mesh_def)
  have h4: "''a.vpg'' \<noteq> []" by simp
  have c: "cached_or_buffer posix_basename synced_world linked_mesh ''a.vpg'' = Some ''# header\<newline>\<newline>n1 0.0 0.0 0.0''"
    by (simp add: cached_or_buffer_def linked_mesh_def)
  have m: "merged_text posix_basename plain_str synced_world linked_object linked_mesh ''a.vpg'' = ''# header\<newline>\<newline>n1 0.0 0.0 0.0''"
    unfolding merged_text_def c by code_simp
  have h5: "Some (merged_text posix_basename plain_str synced_world linked_object linked_mesh ''a.vpg'') =
            cached_or_buffer posix_basename synced_world linked_mesh ''a.vpg''"
    by (simp only: m c)
  show ?thesis
    using sync_unchanged_is_noop [OF h1 h2 h3 h4 h5] h1 h2 h3 m c by blast
qed

subsection \<open>What \<open>remove_int_file\<close> and a cleanup pass do to a document\<close>

lemma remove_int_file_history: "history_stack (remove_int_file basename w f) = history_stack w"
  by (simp add: remove_int_file_def Let_def split: option.splits)

lemma remove_int_file_meshes: "meshes (remove_int_file basename w f) = meshes w"
  by (simp add: remove_int_file_def Let_def split: option.splits)

lemma remove_int_file_scene_some:
  "scene w \<noteq> None \<Longrightarrow> scene (remove_int_file basename w f) \<noteq> None"
  by (simp add: remove_int_file_def Let_def split: option.splits)

lemma remove_int_file_Some:
  assumes "scene w = Some sc"
  shows "remove_int_file basename w f =
     w\<lparr>texts := (texts w)(to_short_filename basename f := None),
       scene := Some (sc\<lparr>prev_texts := map_option (\<lambda>p. p(to_short_filename basename f := None)) (prev_texts sc),
                          short_to_full := map_option (dict_del (to_short_filename basename f)) (short_to_full sc)\<rparr>)\<rparr>"
  by (simp add: remove_int_file_def Let_def assms)

lemma dict_del_keys: "k \<notin> fst ` set (dict_del k m)"
  by (auto simp: dict_del_def)

lemma dict_set_keys: "fst ` set (dict_set k v m) = insert k (fst ` set m)"
  by (induction m) auto

lemma remove_int_file_gone:
  assumes "scene w \<noteq> None"
  shows "document_gone (remove_int_file basename w f) (to_short_filename basename f)"
proof -
  from assms obtain sc where sc: "scene w = Some sc" by (cases "scene w") simp_all
  show ?thesis
    unfolding remove_int_file_Some [OF sc]
    using dict_del_keys [of "to_short_filename basename f"]
    by (cases "prev_texts sc"; cases "short_to_full sc")
       (simp_all add: document_gone_def tracked_paths_def prev_text_of_def)
qed

lemma remove_int_file_keeps_gone:
  assumes "document_gone w short"
  shows "document_gone (remove_int_file basename w f) short"
proof (cases "scene w")
  case None
  then show ?thesis
    using assms
    by (simp add: remove_int_file_def Let_def document_gone_def tracked_paths_def prev_text_of_def)
next
  case (Some sc)
  show ?thesis
    unfolding remove_int_file_Some [OF Some]
    using assms
    by (cases "prev_texts sc"; cases "short_to_full sc")
       (auto simp: document_gone_def tracked_paths_def prev_text_of_def Some dict_del_def)
qed

lemma cleanup_step_history: "history_stack (cleanup_step basename A w item) = history_stack w"
  by (simp add: cleanup_step_def remove_int_file_history)

lemma cleanup_step_meshes: "meshes (cleanup_step basename A w item) = meshes w"
  by (simp add: cleanup_step_def remove_int_file_meshes)

lemma cleanup_step_scene_some: "scene w \<noteq> None \<Longrightarrow> scene (cleanup_step basename A w item) \<noteq> None"
  using remove_int_file_scene_some [of w] by (auto simp: cleanup_step_def)

lemma cleanup_step_keeps_gone:
  "document_gone w short \<Longrightarrow> document_gone (cleanup_step basename A w item) short"
  by (simp add: cleanup_step_def remove_int_file_keeps_gone)

lemma foldl_cleanup_history:
  "history_stack (foldl (cleanup_step basename A) w items) = history_stack w"
  by (induction items arbitrary: w) (simp_all add: cleanup_step_history)

lemma foldl_cleanup_meshes:
  "meshes (foldl (cleanup_step basename A) w items) = meshes w"
  by (induction items arbitrary: w) (simp_all add: cleanup_step_meshes)

lemma foldl_cleanup_keeps_gone:
  "document_gone w short \<Longrightarrow> document_gone (foldl (cleanup_step basename A) w items) short"
  by (induction items arbitrary: w) (simp_all add: cleanup_step_keeps_gone)

lemma foldl_cleanup_removes:
  assumes "scene w \<noteq> None"
    and "(short, full) \<in> set items"
    and "to_short_filename basename full = short"
    and "full \<notin> A"
  shows "document_gone (foldl (cleanup_step basename A) w items) short"
  using assms(1,2)
proof (induction items arbitrary: w)
  case Nil
  then show ?case by simp
next
  case (Cons item items)
  show ?case
  proof (cases "item = (short, full)")
    case True
    have "document_gone (cleanup_step basename A w item) short"
      using remove_int_file_gone [OF Cons.prems(1), of basename full] assms(3,4)
      by (simp add: cleanup_step_def True)
    then show ?thesis by (simp add: foldl_cleanup_keeps_gone)
  next
    case False
    then have "(short, full) \<in> set items" using Cons.prems(2) by simp
    then show ?thesis
      using Cons.IH [OF cleanup_step_scene_some [OF Cons.prems(1)]] by simp
  qed
qed

lemma cleanup_history:
  "history_stack (cleanup_orphan_internal_texts basename w) = history_stack w"
  by (simp add: cleanup_orphan_internal_texts_def foldl_cleanup_history split: option.splits)

lemma cleanup_meshes:
  "meshes (cleanup_orphan_internal_texts basename w) = meshes w"
  by (simp add: cleanup_orphan_internal_texts_def foldl_cleanup_meshes split: option.splits)

lemma cleanup_keeps_gone:
  "document_gone w short \<Longrightarrow> document_gone (cleanup_orphan_internal_texts basename w) short"
  by (simp add: cleanup_orphan_internal_texts_def foldl_cleanup_keeps_gone split: option.splits)

subsection \<open>What a sync does to a document it does not write\<close>

lemma document_gone_cong:
  "texts w' = texts w \<Longrightarrow> scene w' = scene w \<Longrightarrow> document_gone w' short = document_gone w short"
  by (simp add: document_gone_def tracked_paths_def prev_text_of_def)

lemma write_int_file_meshes:
  "meshes (snd (write_int_file basename unnamed w f t)) = meshes w"
  by (simp add: write_int_file_def Let_def split: option.splits)

lemma write_int_file_keeps_gone:
  assumes "document_gone w short"
    and "to_short_filename basename f \<noteq> short"
    and "to_short_filename basename f \<noteq> []"
  shows "document_gone (snd (write_int_file basename unnamed w f t)) short"
proof (cases "scene w")
  case None
  then show ?thesis using assms(1) by (simp add: write_int_file_def)
next
  case (Some sc)
  have k: "short \<notin> fst ` set (dict_set (to_short_filename basename f) f m)"
    if "short \<notin> fst ` set m" for m
    using that assms(2) by (simp add: dict_set_keys)
  have k0: "short \<notin> fst ` set (dict_set (to_short_filename basename f) f [])"
    using assms(2) by simp
  show ?thesis
    using assms k k0
    by (cases "prev_texts sc"; cases "short_to_full sc")
       (simp_all add: write_int_file_def Let_def Some document_gone_def tracked_paths_def
          prev_text_of_def)
qed

lemma show_int_file_texts: "texts (show_int_file basename w f) = texts w"
  by (simp add: show_int_file_def Let_def split: option.splits)

lemma show_int_file_scene: "scene (show_int_file basename w f) = scene w"
  by (simp add: show_int_file_def Let_def split: option.splits)

lemma show_int_file_meshes: "meshes (show_int_file basename w f) = meshes w"
  by (simp add: show_int_file_def Let_def split: option.splits)

lemma prev_text_update_keeps_gone:
  assumes "document_gone w short" and "k \<noteq> short"
  shows "document_gone
           (case scene w of
              None \<Rightarrow> w
            | Some sc \<Rightarrow>
                (let pt = (case prev_texts sc of None \<Rightarrow> Map.empty | Some p \<Rightarrow> p)
                 in w\<lparr>scene := Some (sc\<lparr>prev_texts := Some (pt(k \<mapsto> Some t))\<rparr>)\<rparr>)) short"
proof (cases "scene w")
  case None
  then show ?thesis using assms(1) by simp
next
  case (Some sc)
  show ?thesis
    using assms
    by (cases "prev_texts sc"; cases "short_to_full sc")
       (simp_all add: Some Let_def document_gone_def tracked_paths_def prev_text_of_def)
qed

lemma store_synced_text_keeps_gone:
  assumes "document_gone w short"
    and "to_short_filename basename f \<noteq> short"
    and "to_short_filename basename f \<noteq> []"
  shows "document_gone (store_synced_text basename unnamed w mname f t) short"
proof -
  define w0 where
    "w0 = w\<lparr>meshes := (case meshes w mname of
                         None \<Rightarrow> meshes w
                       | Some mesh \<Rightarrow> (meshes w)(mname \<mapsto> mesh\<lparr>mesh_data_prop := Some (PStr t)\<rparr>))\<rparr>"
  have g0: "document_gone w0 short"
    using assms(1) document_gone_cong [of w0 w short] by (simp add: w0_def)
  obtain r w1 where wr: "write_int_file basename unnamed w0 f t = (r, w1)"
    by (cases "write_int_file basename unnamed w0 f t") simp
  have g1: "document_gone w1 short"
    using write_int_file_keeps_gone [OF g0 assms(2,3), of unnamed t] by (simp add: wr)
  show ?thesis
  proof (cases r)
    case (Some e)
    then show ?thesis
      using g1 by (simp add: store_synced_text_def Let_def w0_def [symmetric] wr)
  next
    case None
    define w2 where
      "w2 = (case scene w1 of
               None \<Rightarrow> w1
             | Some sc \<Rightarrow>
                 (let pt = (case prev_texts sc of None \<Rightarrow> Map.empty | Some p \<Rightarrow> p)
                  in w1\<lparr>scene := Some (sc\<lparr>prev_texts := Some (pt(to_short_filename basename f \<mapsto> Some t))\<rparr>)\<rparr>))"
    have g2: "document_gone w2 short"
      unfolding w2_def by (rule prev_text_update_keeps_gone [OF g1 assms(2)])
    have "store_synced_text basename unnamed w mname f t = show_int_file basename w2 f"
      by (simp add: store_synced_text_def Let_def w0_def [symmetric] wr None w2_def)
    then show ?thesis
      using g2 document_gone_cong [OF show_int_file_texts show_int_file_scene, of basename w2 f short]
      by simp
  qed
qed

lemma store_synced_text_paths:
  "map_option vpg_file_path (meshes (store_synced_text basename unnamed w mname f t) m) =
     map_option vpg_file_path (meshes w m)"
proof -
  define w0 where
    "w0 = w\<lparr>meshes := (case meshes w mname of
                         None \<Rightarrow> meshes w
                       | Some mesh \<Rightarrow> (meshes w)(mname \<mapsto> mesh\<lparr>mesh_data_prop := Some (PStr t)\<rparr>))\<rparr>"
  have p0: "map_option vpg_file_path (meshes w0 m) = map_option vpg_file_path (meshes w m)"
    by (simp add: w0_def split: option.splits)
  obtain r w1 where wr: "write_int_file basename unnamed w0 f t = (r, w1)"
    by (cases "write_int_file basename unnamed w0 f t") simp
  have m1: "meshes w1 = meshes w0"
    using write_int_file_meshes [of basename unnamed w0 f t] by (simp add: wr)
  show ?thesis
  proof (cases r)
    case (Some e)
    then show ?thesis
      using p0 m1 by (simp add: store_synced_text_def Let_def w0_def [symmetric] wr)
  next
    case None
    define w2 where
      "w2 = (case scene w1 of
               None \<Rightarrow> w1
             | Some sc \<Rightarrow>
                 (let pt = (case prev_texts sc of None \<Rightarrow> Map.empty | Some p \<Rightarrow> p)
                  in w1\<lparr>scene := Some (sc\<lparr>prev_texts := Some (pt(to_short_filename basename f \<mapsto> Some t))\<rparr>)\<rparr>))"
    have m2: "meshes w2 = meshes w1"
      by (simp add: w2_def Let_def split: option.splits)
    have "store_synced_text basename unnamed w mname f t = show_int_file basename w2 f"
      by (simp add: store_synced_text_def Let_def w0_def [symmetric] wr None w2_def)
    then show ?thesis
      using p0 m1 m2 by (simp add: show_int_file_meshes)
  qed
qed

lemma sync_object_text_paths:
  "map_option vpg_file_path (meshes (snd (sync_object_text basename unnamed fstr w obj)) m) =
     map_option vpg_file_path (meshes w m)"
proof (cases "obj_data obj")
  case None
  then show ?thesis by (simp add: sync_object_text_def)
next
  case (Some mname)
  note od = Some
  show ?thesis
  proof (cases "meshes w mname")
    case None
    then show ?thesis by (simp add: sync_object_text_def od)
  next
    case (Some mesh)
    note ms = Some
    show ?thesis
    proof (cases "vpg_file_path mesh")
      case None
      then show ?thesis by (simp add: sync_object_text_def od ms)
    next
      case (Some vpg_path)
      show ?thesis
        using ms Some
        by (simp add: sync_object_text_def od Let_def store_synced_text_paths)
    qed
  qed
qed

lemma sync_object_text_keeps_gone:
  assumes "document_gone w short"
    and "sync_short_name basename w obj \<noteq> Some short"
    and "sync_short_name basename w obj \<noteq> Some []"
  shows "document_gone (snd (sync_object_text basename unnamed fstr w obj)) short"
proof (cases "obj_data obj")
  case None
  then show ?thesis using assms(1) by (simp add: sync_object_text_def)
next
  case (Some mname)
  note od = Some
  show ?thesis
  proof (cases "meshes w mname")
    case None
    then show ?thesis using assms(1) by (simp add: sync_object_text_def od)
  next
    case (Some mesh)
    note ms = Some
    show ?thesis
    proof (cases "vpg_file_path mesh")
      case None
      then show ?thesis using assms(1) by (simp add: sync_object_text_def od ms)
    next
      case (Some vpg_path)
      note vp = Some
      show ?thesis
      proof (cases "vpg_path = []")
        case True
        then show ?thesis using assms(1) by (simp add: sync_object_text_def od ms vp)
      next
        case False
        have n1: "to_short_filename basename vpg_path \<noteq> short"
          using assms(2) False by (simp add: sync_short_name_def od ms vp)
        have n2: "to_short_filename basename vpg_path \<noteq> []"
          using assms(3) False by (simp add: sync_short_name_def od ms vp)
        have g: "document_gone (w\<lparr>meshes := ms'\<rparr>) short" for ms'
          using assms(1) document_gone_cong [of "w\<lparr>meshes := ms'\<rparr>" w short] by simp
        show ?thesis
          using False g store_synced_text_keeps_gone [OF g n1 n2]
          by (simp add: sync_object_text_def od ms vp Let_def)
      qed
    qed
  qed
qed

lemma sync_short_name_cong:
  assumes "\<And>m. map_option vpg_file_path (meshes w' m) = map_option vpg_file_path (meshes w m)"
  shows "sync_short_name basename w' obj = sync_short_name basename w obj"
proof (cases "obj_data obj")
  case None
  then show ?thesis by (simp add: sync_short_name_def)
next
  case (Some mname)
  show ?thesis
    using assms [of mname]
    by (cases "meshes w mname"; cases "meshes w' mname") (simp_all add: sync_short_name_def Some)
qed

lemma watcher_step_short_name:
  "sync_short_name basename (watcher_step basename unnamed fstr w op) obj = sync_short_name basename w obj"
proof (cases op)
  case (SyncObject o')
  show ?thesis
    unfolding SyncObject watcher_step_def watcher_op.case
    by (rule sync_short_name_cong) (rule sync_object_text_paths)
next
  case CleanupPass
  show ?thesis
    unfolding CleanupPass watcher_step_def watcher_op.case
    by (rule sync_short_name_cong) (simp add: cleanup_meshes)
qed

lemma watcher_step_avoids:
  "op_avoids basename (watcher_step basename unnamed fstr w op) short op' = op_avoids basename w short op'"
  by (cases op') (simp_all add: op_avoids_def watcher_step_short_name)

lemma watcher_step_keeps_gone:
  assumes "document_gone w short" and "op_avoids basename w short op"
  shows "document_gone (watcher_step basename unnamed fstr w op) short"
proof (cases op)
  case (SyncObject obj)
  then show ?thesis
    using assms sync_object_text_keeps_gone [of w short basename obj unnamed fstr]
    by (simp add: watcher_step_def op_avoids_def)
next
  case CleanupPass
  then show ?thesis
    using assms(1) by (simp add: watcher_step_def cleanup_keeps_gone)
qed

lemma watcher_run_keeps_gone:
  assumes "document_gone w short" and "list_all (op_avoids basename w short) ops"
  shows "document_gone (watcher_run basename unnamed fstr w ops) short"
  using assms
proof (induction ops arbitrary: w)
  case Nil
  then show ?case by (simp add: watcher_run_def)
next
  case (Cons op ops)
  have g: "document_gone (watcher_step basename unnamed fstr w op) short"
    using Cons.prems by (simp add: watcher_step_keeps_gone)
  have a: "list_all (op_avoids basename (watcher_step basename unnamed fstr w op) short) ops"
    using Cons.prems(2) by (simp add: list_all_iff watcher_step_avoids)
  show ?case
    using Cons.IH [OF g a] by (simp add: watcher_run_def)
qed

lemma cleanup_avoids:
  "op_avoids basename (cleanup_orphan_internal_texts basename w) short op = op_avoids basename w short op"
proof -
  have "sync_short_name basename (cleanup_orphan_internal_texts basename w) obj =
        sync_short_name basename w obj" for obj
    by (rule sync_short_name_cong) (simp add: cleanup_meshes)
  then show ?thesis by (cases op) (simp_all add: op_avoids_def)
qed

text \<open>
  C7 (amended). A cleanup pass removes every tracked document whose path no mesh object
  refers to: its text, its entry of the map from short names to paths and its previous
  text are gone after the pass. The undo history of the text editor is left as it was.
  The document stays gone through every later sequence of syncs and cleanup passes in
  which no synced object has a mesh whose VPG path has the short name of the document
  or an empty short name. The keys of the map are the short names of their paths, which
  is how \<open>write_int_file\<close> stores them.
\<close>

theorem orphan_cleanup:
  assumes "(short, full) \<in> set (tracked_paths w)"
    and "paths_wf basename (tracked_paths w)"
    and "full \<notin> collect_active_vpg_paths w"
  shows "document_gone (cleanup_orphan_internal_texts basename w) short \<and>
         history_stack (cleanup_orphan_internal_texts basename w) = history_stack w \<and>
         (list_all (op_avoids basename w short) ops \<longrightarrow>
            document_gone
              (watcher_run basename unnamed fstr (cleanup_orphan_internal_texts basename w) ops) short)"
proof -
  obtain sc where sc: "scene w = Some sc"
    using assms(1) by (cases "scene w") (simp_all add: tracked_paths_def)
  obtain mapping where m: "short_to_full sc = Some mapping"
    using assms(1) sc by (cases "short_to_full sc") (simp_all add: tracked_paths_def)
  have mem: "(short, full) \<in> set mapping"
    using assms(1) by (simp add: tracked_paths_def sc m)
  have ne: "mapping \<noteq> []" using mem by auto
  have short: "to_short_filename basename full = short"
    using assms(2) mem by (auto simp: paths_wf_def tracked_paths_def sc m list_all_iff)
  have "document_gone (foldl (cleanup_step basename (collect_active_vpg_paths w)) w mapping) short"
    by (rule foldl_cleanup_removes [OF _ mem short assms(3)]) (simp add: sc)
  then have g: "document_gone (cleanup_orphan_internal_texts basename w) short"
    by (simp add: cleanup_orphan_internal_texts_def sc m ne)
  have r: "document_gone
             (watcher_run basename unnamed fstr (cleanup_orphan_internal_texts basename w) ops) short"
    if a: "list_all (op_avoids basename w short) ops"
  proof -
    have "list_all (op_avoids basename (cleanup_orphan_internal_texts basename w) short) ops"
      using a by (simp add: list_all_iff cleanup_avoids)
    then show ?thesis by (rule watcher_run_keeps_gone [OF g])
  qed
  show ?thesis
    using g r cleanup_history [of basename w] by simp
qed

theorem orphan_cleanup_witness:
  "(''x.vpg'', ''/data/x.vpg'') \<in> set (tracked_paths orphan_world) \<and>
   paths_wf posix_basename (tracked_paths orphan_world) \<and>
   ''/data/x.vpg'' \<notin> collect_active_vpg_paths orphan_world \<and>
   list_all (op_avoids posix_basename orphan_world ''x.vpg'') [SyncObject linked_object, CleanupPass] \<and>
   texts orphan_world ''x.vpg'' = Some ''n1 1 1 1'' \<and>
   document_gone (cleanup_orphan_internal_texts posix_basename orphan_world) ''x.vpg'' \<and>
   document_gone
     (watcher_run posix_basename plain_unnamed plain_str
        (cleanup_orphan_internal_texts posix_basename orphan_world)
        [SyncObject linked_object, CleanupPass]) ''x.vpg''"
proof -
  have t: "tracked_paths orphan_world = [(''a.vpg'', ''a.vpg''), (''x.vpg'', ''/data/x.vpg'')]"
    by (simp add: tracked_paths_def orphan_world_def)
  have h1: "(''x.vpg'', ''/data/x.vpg'') \<in> set (tracked_paths orphan_world)"
    by (simp add: t)
  have h2: "paths_wf posix_basename (tracked_paths orphan_world)"
    unfolding t by code_simp
  have a: "collect_active_vpg_paths orphan_world = {''a.vpg''}"
    by (simp add: collect_active_vpg_paths_def active_path_step_def orphan_world_def
        linked_object_def linked_mesh_def)
  have h3: "''/data/x.vpg'' \<notin> collect_active_vpg_paths orphan_world"
    by (simp add: a)
  have s: "sync_short_name posix_basename orphan_world linked_object = Some ''a.vpg''"
    by (simp add: sync_short_name_def orphan_world_def linked_object_def linked_mesh_def
        to_short_filename_def posix_basename_def)
  have h4: "list_all (op_avoids posix_basename orphan_world ''x.vpg'') [SyncObject linked_object, CleanupPass]"
    by (simp add: op_avoids_def s)
  have x: "texts orphan_world ''x.vpg'' = Some ''n1 1 1 1''"
    by (simp add: orphan_world_def)
  show ?thesis
    using orphan_cleanup [OF h1 h2 h3, of "[SyncObject linked_object, CleanupPass]" plain_unnamed plain_str]
      h1 h2 h3 h4 x by blast
qed

text \<open>\<open>write_int_file\<close> keeps every key of the map the short name of its path.\<close>

lemma dict_set_wf:
  "paths_wf basename m \<Longrightarrow> to_short_filename basename f = k \<Longrightarrow> paths_wf basename (dict_set k f m)"
  by (induction m) (auto simp: paths_wf_def)

lemma single_wf:
  "to_short_filename basename f = k \<Longrightarrow> paths_wf basename [(k, f)]"
  by (simp add: paths_wf_def)

lemma write_int_file_wf:
  assumes "paths_wf basename (tracked_paths w)"
  shows "paths_wf basename (tracked_paths (snd (write_int_file basename unnamed w filename content)))"
proof (cases "scene w")
  case None
  then show ?thesis using assms by (simp add: write_int_file_def)
next
  case (Some sc)
  have e: "paths_wf basename []" by (simp add: paths_wf_def)
  show ?thesis
    using assms e
    by (cases "short_to_full sc")
       (auto simp: write_int_file_def Let_def Some tracked_paths_def intro!: dict_set_wf single_wf)
qed

text \<open>
  C7 as stated fails twice. After the pass that removes the orphan text \<open>x.vpg\<close>, the undo
  history still holds its entry. And in a state where the mesh of an object is linked to
  another path of the same short name, the pass removes the text of \<open>/data/x.vpg\<close> and
  the next sync of that object creates a text \<open>x.vpg\<close> again, with a map entry.
\<close>

theorem orphan_document_counterexample:
  "(''x.vpg'', ''/data/x.vpg'') \<in> set (tracked_paths orphan_world) \<and>
   ''/data/x.vpg'' \<notin> collect_active_vpg_paths orphan_world \<and>
   history_stack (cleanup_orphan_internal_texts posix_basename orphan_world) = [(''x.vpg'', ''n1 1 1 1'')] \<and>
   (''x.vpg'', ''/data/x.vpg'') \<in> set (tracked_paths collision_world) \<and>
   paths_wf posix_basename (tracked_paths collision_world) \<and>
   ''/data/x.vpg'' \<notin> collect_active_vpg_paths collision_world \<and>
   texts (cleanup_orphan_internal_texts posix_basename collision_world) ''x.vpg'' = None \<and>
   tracked_paths (cleanup_orphan_internal_texts posix_basename collision_world) = [] \<and>
   texts (snd (sync_object_text posix_basename plain_unnamed plain_str
                 (cleanup_orphan_internal_texts posix_basename collision_world) linked_object)) ''x.vpg'' =
     Some ''n1 0.0 0.0 0.0'' \<and>
   tracked_paths (snd (sync_object_text posix_basename plain_unnamed plain_str
                         (cleanup_orphan_internal_texts posix_basename collision_world) linked_object)) =
     [(''x.vpg'', ''/other/x.vpg'')]"
proof -
  have t: "tracked_paths orphan_world = [(''a.vpg'', ''a.vpg''), (''x.vpg'', ''/data/x.vpg'')]"
    by (simp add: tracked_paths_def orphan_world_def)
  have a: "collect_active_vpg_paths orphan_world = {''a.vpg''}"
    by (simp add: collect_active_vpg_paths_def active_path_step_def orphan_world_def
        linked_object_def linked_mesh_def)
  have h: "history_stack (cleanup_orphan_internal_texts posix_basename orphan_world) = [(''x.vpg'', ''n1 1 1 1'')]"
    by (simp add: cleanup_history) (simp add: orphan_world_def)
  have t': "tracked_paths collision_world = [(''x.vpg'', ''/data/x.vpg'')]"
    by (simp add: tracked_paths_def collision_world_def)
  have wf: "paths_wf posix_basename [(''x.vpg'', ''/data/x.vpg'')]"
    by code_simp
  have a': "collect_active_vpg_paths collision_world = {''/other/x.vpg''}"
    by (simp add: collect_active_vpg_paths_def active_path_step_def collision_world_def
        linked_object_def twin_mesh_def)
  have c1: "texts (cleanup_orphan_internal_texts posix_basename collision_world) ''x.vpg'' = None"
    by code_simp
  have c2: "tracked_paths (cleanup_orphan_internal_texts posix_basename collision_world) = []"
    by code_simp
  have s1: "texts (snd (sync_object_text posix_basename plain_unnamed plain_str
                 (cleanup_orphan_internal_texts posix_basename collision_world) linked_object)) ''x.vpg'' =
     Some ''n1 0.0 0.0 0.0''"
    by code_simp
  have s2: "tracked_paths (snd (sync_object_text posix_basename plain_unnamed plain_str
                         (cleanup_orphan_internal_texts posix_basename collision_world) linked_object)) =
     [(''x.vpg'', ''/other/x.vpg'')]"
    by code_simp
  show ?thesis
    by (simp only: t t' a a' h wf c1 c2 s1 s2) simp
qed

section \<open>Reading a file\<close>

text \<open>
  C8. \<open>read_file\<close> returns the content, or \<open>None\<close> on an \<open>OSError\<close>; a file whose bytes are
  not UTF-8 makes it raise \<open>UnicodeDecodeError\<close> to its caller, since the handler names
  \<open>IOError\<close> only.
\<close>

theorem read_file_raises_on_undecodable_file:
  "read_file (\<lambda>p. if p = ''/tmp/bad.vpg'' then RaisesUnicodeDecodeError else RaisesOSError)
     ''/tmp/bad.vpg'' = Inl UnicodeDecodeError"
  by (simp add: read_file_def)

end
